theory Spec2Isabelle
  imports Main
begin

section \<open>Data model\<close>

text \<open>
  The development embeds \<^verbatim>\<open>ConvexSignalsClient\<close> (client.ts), in the variant whose cells
  have the counting \<^verbatim>\<open>subscribe\<close> and \<^verbatim>\<open>destroy\<close>. Objects that the
  TypeScript code creates and shares by reference (cells, promises, timers, backend
  subscriptions) live in lists of the client state and are named by their index, so object
  identity is index equality. Type variables: \<open>'q\<close> is a query name together with its
  arguments, \<open>'t\<close> a query token, \<open>'v\<close> a query result; \<open>None :: 'v option\<close> is
  JavaScript's \<^verbatim>\<open>undefined\<close>.
\<close>

datatype error = QueryTimedOut | UnsubNotInitialised

datatype 'v promise = Pending | Resolved "'v option" | Rejected error

text \<open>
  The closures that the code passes to \<^verbatim>\<open>sig.subscribe\<close>: a caller's function
  (opaque, identified by a number, assumed not to call back into the client), the listener
  of \<^verbatim>\<open>sync\<close> (promise, timer) and the listener of \<^verbatim>\<open>query\<close> (promise, timer).
\<close>

datatype listener = External nat | SyncListener nat nat | QueryListener nat nat

text \<open>
  The closures passed to \<^verbatim>\<open>setTimeout\<close>: the one of \<^verbatim>\<open>sync\<close> rejects the
  promise and calls \<^verbatim>\<open>unsub?.()\<close> (promise, cell, subscription of the listener), the one
  of \<^verbatim>\<open>query\<close> only rejects the promise.
\<close>

datatype timeout_callback = SyncTimeout nat nat nat | QueryTimeout nat

text \<open>
  Modelled from the spec: the backend collaborator (\<^verbatim>\<open>BaseConvexClient\<close> of
  convex/browser) is not part of the repository. It is the counting fake of the spec:
  \<^verbatim>\<open>subscribe(name, args, options) -> {token, unsubscribe}\<close> derives the token from
  name and arguments and opens one subscription per call; every subscription records how
  often its \<^verbatim>\<open>unsubscribe\<close> was called, and is live while that number is 0.
  \<^verbatim>\<open>localQueryResult(name, args) -> Value | undefined\<close> reads a table. \<open>identical\<close>
  says of which results two reads are the same JavaScript value (\<^verbatim>\<open>===\<close>): it is false
  of \<^verbatim>\<open>NaN\<close> and of a result that the backend builds anew as an object at every read.
\<close>

record ('q, 't, 'v) backend =
  tokenOf :: "'q \<Rightarrow> 't"
  subscriptions :: "('t \<times> nat) list"
  localQueryResult :: "'q \<Rightarrow> 'v option"
  identical :: "'v \<Rightarrow> bool"

definition backend_subscribe ::
  "'q \<Rightarrow> ('q, 't, 'v) backend \<Rightarrow> 't \<times> nat \<times> ('q, 't, 'v) backend" where
  "backend_subscribe q b =
     (tokenOf b q, length (subscriptions b),
      b\<lparr>subscriptions := subscriptions b @ [(tokenOf b q, 0)]\<rparr>)"

definition backend_unsubscribe :: "nat \<Rightarrow> ('q, 't, 'v) backend \<Rightarrow> ('q, 't, 'v) backend" where
  "backend_unsubscribe h b =
     (if h < length (subscriptions b)
      then b\<lparr>subscriptions :=
             (subscriptions b)[h := (fst (subscriptions b ! h), Suc (snd (subscriptions b ! h)))]\<rparr>
      else b)"

definition live :: "('q, 't, 'v) backend \<Rightarrow> 't \<Rightarrow> nat" where
  "live b tok = length (filter (\<lambda>e. fst e = tok \<and> snd e = 0) (subscriptions b))"

text \<open>
  The object that \<^verbatim>\<open>querySignal\<close> builds: the variables captured by its closures
  (\<^verbatim>\<open>name\<close>/\<^verbatim>\<open>args\<close>, \<^verbatim>\<open>queryToken\<close>, \<^verbatim>\<open>unsubscribe\<close>, \<^verbatim>\<open>counter\<close>), the
  \<^verbatim>\<open>[IsLoaded]\<close> field, and the signal \<^verbatim>\<open>sig\<close>.

  Modelled from the spec: the reactive-signal primitive behind \<^verbatim>\<open>sig\<close> is a collaborator
  (\<^verbatim>\<open>signal\<close> of @preact/signals by default, \<^verbatim>\<open>ref\<close> with \<^verbatim>\<open>effect\<close> in vue.ts). It
  holds a value and its active subscriptions. A write to \<^verbatim>\<open>value\<close> notifies the
  subscribers synchronously and \<^verbatim>\<open>subscribe\<close> returns an idempotent unsubscribe
  capability. As both of these primitives do, \<^verbatim>\<open>subscribe\<close> first runs the listener once
  with the current value, and the setter compares the new value with the held one by
  \<^verbatim>\<open>!==\<close> and notifies nobody when they are the same JavaScript value.
\<close>

record ('q, 't, 'v) cell =
  nameArgs :: 'q
  queryToken :: 't
  unsubscribe :: nat
  IsLoaded :: bool
  sig_value :: "'v option"
  sig_listeners :: "(nat \<times> listener) list"
  sig_next :: nat
  counter :: int

record ('q, 't, 'v) client =
  backend :: "('q, 't, 'v) backend"
  signals :: "'t \<Rightarrow> nat option"
  cells :: "('q, 't, 'v) cell list"
  promises :: "'v promise list"
  timers :: "(nat \<times> timeout_callback) option list"
  authenticated :: "bool option"

text \<open>
  The constructor. \<^verbatim>\<open>#signals = new Map()\<close> and \<^verbatim>\<open>#authenticated = signal(false)\<close>; the
  backend's token function, its table of local results and the identity of its results
  are parameters.
\<close>

definition newClient ::
  "('q \<Rightarrow> 't) \<Rightarrow> ('q \<Rightarrow> 'v option) \<Rightarrow> ('v \<Rightarrow> bool) \<Rightarrow> ('q, 't, 'v) client" where
  "newClient tok res idn =
     \<lparr>backend = \<lparr>tokenOf = tok, subscriptions = [], localQueryResult = res, identical = idn\<rparr>,
      signals = (\<lambda>_. None), cells = [], promises = [], timers = [],
      authenticated = Some False\<rparr>"

section \<open>Promises, timers and the signal primitive\<close>

definition update_cell ::
  "nat \<Rightarrow> (('q, 't, 'v) cell \<Rightarrow> ('q, 't, 'v) cell) \<Rightarrow> ('q, 't, 'v) client \<Rightarrow> ('q, 't, 'v) client" where
  "update_cell c f s = s\<lparr>cells := (cells s)[c := f (cells s ! c)]\<rparr>"

text \<open>Settling a promise that is already settled has no effect.\<close>

definition resolve :: "nat \<Rightarrow> 'v option \<Rightarrow> ('q, 't, 'v) client \<Rightarrow> ('q, 't, 'v) client" where
  "resolve p v s =
     (if p < length (promises s) \<and> promises s ! p = Pending
      then s\<lparr>promises := (promises s)[p := Resolved v]\<rparr> else s)"

definition reject :: "nat \<Rightarrow> error \<Rightarrow> ('q, 't, 'v) client \<Rightarrow> ('q, 't, 'v) client" where
  "reject p e s =
     (if p < length (promises s) \<and> promises s ! p = Pending
      then s\<lparr>promises := (promises s)[p := Rejected e]\<rparr> else s)"

definition clearTimeout :: "nat \<Rightarrow> ('q, 't, 'v) client \<Rightarrow> ('q, 't, 'v) client" where
  "clearTimeout t s = s\<lparr>timers := (timers s)[t := None]\<rparr>"

text \<open>The capability returned by \<^verbatim>\<open>sig.subscribe\<close>: it removes that one subscription.\<close>

definition sig_unsub :: "nat \<Rightarrow> nat \<Rightarrow> ('q, 't, 'v) client \<Rightarrow> ('q, 't, 'v) client" where
  "sig_unsub c l s =
     update_cell c (\<lambda>x. x\<lparr>sig_listeners := filter (\<lambda>e. fst e \<noteq> l) (sig_listeners x)\<rparr>) s"

section \<open>The cell's operations\<close>

text \<open>
  The capability returned by the cell's \<^verbatim>\<open>subscribe\<close>:
  \<^verbatim>\<open>() => { unsub(); if (--counter === 0) { unsubscribe(); this.#signals.delete(queryToken); } }\<close>
\<close>

definition unsubscribe_cell :: "nat \<Rightarrow> nat \<Rightarrow> ('q, 't, 'v) client \<Rightarrow> ('q, 't, 'v) client" where
  "unsubscribe_cell c l s =
     (let s1 = sig_unsub c l s;
          s2 = update_cell c (\<lambda>x. x\<lparr>counter := counter x - 1\<rparr>) s1
      in if counter (cells s2 ! c) = 0
         then s2\<lparr>backend := backend_unsubscribe (unsubscribe (cells s2 ! c)) (backend s2),
                 signals := (signals s2)(queryToken (cells s2 ! c) := None)\<rparr>
         else s2)"

text \<open>
  One run of a listener of cell \<open>c\<close> with value \<open>v\<close>. \<open>u\<close> is the listener's own
  unsubscribe capability: \<open>None\<close> during the run that \<^verbatim>\<open>subscribe\<close> itself makes, when
  the variable \<^verbatim>\<open>unsub\<close> is not yet assigned. There \<^verbatim>\<open>unsub?.()\<close> of \<^verbatim>\<open>sync\<close> does
  nothing and \<^verbatim>\<open>unsub()\<close> of \<^verbatim>\<open>query\<close> throws (\<^verbatim>\<open>const unsub\<close> is not yet
  initialised); the result carries the exception.

  \<^verbatim>\<open>sync\<close>:  \<^verbatim>\<open>if (this.isLoaded) { resolve(value); unsub?.(); clearTimeout(timer); }\<close>
  \<^verbatim>\<open>query\<close>: \<^verbatim>\<open>if (!signal.isLoaded) return; clearTimeout(timer); resolve(value); unsub();\<close>
\<close>

fun run_listener ::
  "nat \<Rightarrow> nat option \<Rightarrow> listener \<Rightarrow> 'v option \<Rightarrow> ('q, 't, 'v) client
     \<Rightarrow> error option \<times> ('q, 't, 'v) client" where
  "run_listener c u (External n) v s = (None, s)"
| "run_listener c u (SyncListener p t) v s =
     (if IsLoaded (cells s ! c)
      then (None, clearTimeout t
                    (case u of None \<Rightarrow> resolve p v s | Some l \<Rightarrow> sig_unsub c l (resolve p v s)))
      else (None, s))"
| "run_listener c u (QueryListener p t) v s =
     (if \<not> IsLoaded (cells s ! c) then (None, s)
      else (case u of
              None \<Rightarrow> (Some UnsubNotInitialised, resolve p v (clearTimeout t s))
            | Some l \<Rightarrow> (None, unsubscribe_cell c l (resolve p v (clearTimeout t s)))))"

text \<open>
  \<^verbatim>\<open>sig.subscribe(fn)\<close>: the listener runs once with the current value; if that run throws,
  the subscription is dropped and the exception propagates, otherwise the subscription is
  recorded and its capability returned.
\<close>

definition sig_subscribe ::
  "nat \<Rightarrow> listener \<Rightarrow> ('q, 't, 'v) client \<Rightarrow> (error + nat) \<times> ('q, 't, 'v) client" where
  "sig_subscribe c fn s =
     (let l = sig_next (cells s ! c);
          (e, s1) = run_listener c None fn (sig_value (cells s ! c)) s
      in case e of
           Some err \<Rightarrow> (Inl err, s1)
         | None \<Rightarrow> (Inr l, update_cell c
                      (\<lambda>x. x\<lparr>sig_listeners := sig_listeners x @ [(l, fn)], sig_next := Suc l\<rparr>) s1))"

text \<open>The listeners subscribed at the time of a write run one after the other.\<close>

fun notify ::
  "nat \<Rightarrow> 'v option \<Rightarrow> (nat \<times> listener) list \<Rightarrow> ('q, 't, 'v) client \<Rightarrow> ('q, 't, 'v) client" where
  "notify c v [] s = s"
| "notify c v (e # es) s = notify c v es (snd (run_listener c (Some (fst e)) (snd e) v s))"

text \<open>
  \<^verbatim>\<open>old === new\<close> for a held value and a result read from the backend:
  \<^verbatim>\<open>undefined\<close> is itself; a defined result is the held one when both are the same result
  and reads of it are identical.
\<close>

definition strictly_equal ::
  "('q, 't, 'v) backend \<Rightarrow> 'v option \<Rightarrow> 'v option \<Rightarrow> bool" where
  "strictly_equal b old new =
     (case new of None \<Rightarrow> old = None | Some x \<Rightarrow> old = Some x \<and> identical b x)"

text \<open>
  \<^verbatim>\<open>sig.value = v\<close>: \<^verbatim>\<open>if (value !== this._value) { ... notify the subscribers ... }\<close>.
\<close>

definition sig_set :: "nat \<Rightarrow> 'v option \<Rightarrow> ('q, 't, 'v) client \<Rightarrow> ('q, 't, 'v) client" where
  "sig_set c v s =
     (if strictly_equal (backend s) (sig_value (cells s ! c)) v then s
      else notify c v (sig_listeners (cells s ! c)) (update_cell c (\<lambda>x. x\<lparr>sig_value := v\<rparr>) s))"

text \<open>\<^verbatim>\<open>refresh: () => { sig.value = this.#client.localQueryResult(name, args); }\<close>\<close>

definition refresh :: "nat \<Rightarrow> ('q, 't, 'v) client \<Rightarrow> ('q, 't, 'v) client" where
  "refresh c s = sig_set c (localQueryResult (backend s) (nameArgs (cells s ! c))) s"

text \<open>\<^verbatim>\<open>destroy: () => { this.#signals.delete(queryToken); unsubscribe(); }\<close>\<close>

definition destroy :: "nat \<Rightarrow> ('q, 't, 'v) client \<Rightarrow> ('q, 't, 'v) client" where
  "destroy c s =
     s\<lparr>signals := (signals s)(queryToken (cells s ! c) := None),
       backend := backend_unsubscribe (unsubscribe (cells s ! c)) (backend s)\<rparr>"

text \<open>
  The cell's \<^verbatim>\<open>subscribe\<close>: \<^verbatim>\<open>counter++; const unsub = sig.subscribe(fn); return () => ...\<close>.
  The result is the capability (the subscription to hand to \<open>unsubscribe_cell\<close>), or the
  exception of the listener's first run.
\<close>

definition subscribe ::
  "nat \<Rightarrow> listener \<Rightarrow> ('q, 't, 'v) client \<Rightarrow> (error + nat) \<times> ('q, 't, 'v) client" where
  "subscribe c fn s = sig_subscribe c fn (update_cell c (\<lambda>x. x\<lparr>counter := counter x + 1\<rparr>) s)"

text \<open>
  \<^verbatim>\<open>sync(timeout = 10000)\<close>: a new promise, a timer whose callback rejects it and removes
  the listener, and a listener on \<^verbatim>\<open>sig\<close> itself (not through the counting
  \<^verbatim>\<open>subscribe\<close>). The result is the promise.
\<close>

definition sync :: "nat \<Rightarrow> nat \<Rightarrow> ('q, 't, 'v) client \<Rightarrow> nat \<times> ('q, 't, 'v) client" where
  "sync c timeout s =
     (let p = length (promises s);
          t = length (timers s);
          s1 = s\<lparr>promises := promises s @ [Pending],
                 timers := timers s @ [Some (timeout, SyncTimeout p c (sig_next (cells s ! c)))]\<rparr>
      in (p, snd (sig_subscribe c (SyncListener p t) s1)))"

section \<open>The client's operations\<close>

text \<open>
  \<^verbatim>\<open>#onTransition\<close>: for every updated token with a cell in \<^verbatim>\<open>#signals\<close>, set
  \<^verbatim>\<open>[IsLoaded]\<close> and refresh.
\<close>

fun onTransition :: "'t list \<Rightarrow> ('q, 't, 'v) client \<Rightarrow> ('q, 't, 'v) client" where
  "onTransition [] s = s"
| "onTransition (tok # toks) s =
     onTransition toks
       (case signals s tok of
          None \<Rightarrow> s
        | Some c \<Rightarrow> refresh c (update_cell c (\<lambda>x. x\<lparr>IsLoaded := True\<rparr>) s))"

text \<open>
  \<^verbatim>\<open>querySignal\<close>: subscribe at the backend first; when the token has a cell, release
  that subscription and return the cell, otherwise build a new cell and store it.
\<close>

definition querySignal :: "'q \<Rightarrow> ('q, 't, 'v) client \<Rightarrow> nat \<times> ('q, 't, 'v) client" where
  "querySignal q s =
     (let (tok, h, b) = backend_subscribe q (backend s)
      in case signals s tok of
           Some c \<Rightarrow> (c, s\<lparr>backend := backend_unsubscribe h b\<rparr>)
         | None \<Rightarrow>
             (length (cells s),
              s\<lparr>backend := b,
                cells := cells s @
                  [\<lparr>nameArgs = q, queryToken = tok, unsubscribe = h, IsLoaded = False,
                    sig_value = None, sig_listeners = [], sig_next = 0, counter = 0\<rparr>],
                signals := (signals s)(tok \<mapsto> length (cells s))\<rparr>))"

text \<open>
  \<^verbatim>\<open>query\<close>: the cell of \<^verbatim>\<open>querySignal\<close>, a new promise, a timer of
  \<^verbatim>\<open>options?.timeout ?? 10000\<close> whose callback only rejects, and a listener through the
  cell's counting \<^verbatim>\<open>subscribe\<close>. An exception inside the promise's executor rejects the
  promise, which has no effect once it is resolved.
\<close>

definition query :: "'q \<Rightarrow> nat option \<Rightarrow> ('q, 't, 'v) client \<Rightarrow> nat \<times> ('q, 't, 'v) client" where
  "query q timeout s =
     (let (c, s1) = querySignal q s;
          p = length (promises s1);
          t = length (timers s1);
          s2 = s1\<lparr>promises := promises s1 @ [Pending],
                  timers := timers s1 @
                    [Some (case timeout of None \<Rightarrow> 10000 | Some d \<Rightarrow> d, QueryTimeout p)]\<rparr>;
          (r, s3) = subscribe c (QueryListener p t) s2
      in (p, case r of Inl err \<Rightarrow> reject p err s3 | Inr l \<Rightarrow> s3))"

text \<open>
  The expiry of timer \<open>t\<close> (an event of the environment: real time is not modelled). A
  timer that was cleared or has fired does nothing.
  \<^verbatim>\<open>sync\<close>:  \<^verbatim>\<open>reject(new Error('Query timed out')); unsub?.();\<close>
  \<^verbatim>\<open>query\<close>: \<^verbatim>\<open>reject(new Error('Query timed out'))\<close>
\<close>

definition fire :: "nat \<Rightarrow> ('q, 't, 'v) client \<Rightarrow> ('q, 't, 'v) client" where
  "fire t s =
     (if t < length (timers s) then
        (case timers s ! t of
           None \<Rightarrow> s
         | Some (d, SyncTimeout p c l) \<Rightarrow> sig_unsub c l (reject p QueryTimedOut (clearTimeout t s))
         | Some (d, QueryTimeout p) \<Rightarrow> reject p QueryTimedOut (clearTimeout t s))
      else s)"

text \<open>
  \<^verbatim>\<open>setAuth(fetcher)\<close> hands the backend a callback and touches nothing else; the backend
  calls it (\<open>onAuthChange\<close>) with every authentication outcome:
  \<^verbatim>\<open>(authenticated) => { this.#authenticated.value = authenticated; }\<close>.
  \<^verbatim>\<open>clearAuth\<close> only forwards to the backend.
\<close>

definition setAuth :: "('q, 't, 'v) client \<Rightarrow> ('q, 't, 'v) client" where
  "setAuth s = s"

definition onAuthChange :: "bool \<Rightarrow> ('q, 't, 'v) client \<Rightarrow> ('q, 't, 'v) client" where
  "onAuthChange a s = s\<lparr>authenticated := Some a\<rparr>"

definition clearAuth :: "('q, 't, 'v) client \<Rightarrow> ('q, 't, 'v) client" where
  "clearAuth s = s"

text \<open>
  The later variant of client.ts (the one with the finalization registry) declares the cell
  as \<^verbatim>\<open>Signalish<boolean | undefined, true>\<close>, creates it in the constructor with
  \<^verbatim>\<open>this.#authenticated = this.#signal()\<close> and starts \<^verbatim>\<open>setAuth\<close> with
  \<^verbatim>\<open>this.#authenticated.value = undefined\<close>.
\<close>

definition newClient_tristate ::
  "('q \<Rightarrow> 't) \<Rightarrow> ('q \<Rightarrow> 'v option) \<Rightarrow> ('v \<Rightarrow> bool) \<Rightarrow> ('q, 't, 'v) client" where
  "newClient_tristate tok res idn = (newClient tok res idn)\<lparr>authenticated := None\<rparr>"

definition setAuth_tristate :: "('q, 't, 'v) client \<Rightarrow> ('q, 't, 'v) client" where
  "setAuth_tristate s = s\<lparr>authenticated := None\<rparr>"

section \<open>Computed cells\<close>







section \<open>Runs of the client\<close>

text \<open>
  What callers and the environment can do to a client, one event at a time. A caller can
  only name a cell that exists. \<open>LocalResults\<close> is the backend replacing its table of
  local results, \<open>Transition\<close> its call of \<^verbatim>\<open>#onTransition\<close>, \<open>Fire\<close> the expiry of a
  timer.
\<close>

datatype ('q, 't, 'v) event =
    QuerySignal 'q
  | Subscribe nat nat
  | Unsubscribe nat nat
  | Refresh nat
  | Destroy nat
  | Sync nat nat
  | Query 'q "nat option"
  | Transition "'t list"
  | LocalResults "'q \<Rightarrow> 'v option"
  | Fire nat

fun step :: "('q, 't, 'v) event \<Rightarrow> ('q, 't, 'v) client \<Rightarrow> ('q, 't, 'v) client" where
  "step (QuerySignal q) s = snd (querySignal q s)"
| "step (Subscribe c n) s = (if c < length (cells s) then snd (subscribe c (External n) s) else s)"
| "step (Unsubscribe c l) s = (if c < length (cells s) then unsubscribe_cell c l s else s)"
| "step (Refresh c) s = (if c < length (cells s) then refresh c s else s)"
| "step (Destroy c) s = (if c < length (cells s) then destroy c s else s)"
| "step (Sync c d) s = (if c < length (cells s) then snd (sync c d s) else s)"
| "step (Query q d) s = snd (query q d s)"
| "step (Transition toks) s = onTransition toks s"
| "step (LocalResults f) s = s\<lparr>backend := (backend s)\<lparr>localQueryResult := f\<rparr>\<rparr>"
| "step (Fire t) s = fire t s"

fun run :: "('q, 't, 'v) event list \<Rightarrow> ('q, 't, 'v) client \<Rightarrow> ('q, 't, 'v) client" where
  "run [] s = s"
| "run (ev # evs) s = run evs (step ev s)"



text \<open>
  The registry is well formed when every entry names an existing cell that was built for
  that token, and every cell holds a subscription that the backend knows.
\<close>

definition wf :: "('q, 't, 'v) client \<Rightarrow> bool" where
  "wf s \<longleftrightarrow>
     (\<forall>tok c. signals s tok = Some c \<longrightarrow> c < length (cells s) \<and> queryToken (cells s ! c) = tok) \<and>
     (\<forall>c < length (cells s). unsubscribe (cells s ! c) < length (subscriptions (backend s)))"

text \<open>
  Projections of a cell that the listeners, the counter and the subscription list do not
  reach, and those that a write of the value does not reach either.
\<close>

definition inert :: "(('q, 't, 'v) cell \<Rightarrow> 'a) \<Rightarrow> bool" where
  "inert g \<longleftrightarrow>
     (\<forall>x ls. g (x\<lparr>sig_listeners := ls\<rparr>) = g x) \<and>
     (\<forall>x n. g (x\<lparr>sig_next := n\<rparr>) = g x) \<and>
     (\<forall>x k. g (x\<lparr>counter := k\<rparr>) = g x)"

definition inert_value :: "(('q, 't, 'v) cell \<Rightarrow> 'a) \<Rightarrow> bool" where
  "inert_value g \<longleftrightarrow> inert g \<and> (\<forall>x v. g (x\<lparr>sig_value := v\<rparr>) = g x)"

text \<open>
  A concrete client for examples: queries and tokens are numbers, the token of a query is
  the query itself, the backend has no local result yet, and a number is identical to
  itself.
\<close>

definition client0 :: "(nat, nat, nat) client" where
  "client0 = newClient id Map.empty (\<lambda>x. True)"

text \<open>
  How the backend and the client can change over a run: subscriptions are only added and
  their unsubscribe counts only grow; cells are only added and keep the variables their
  closures captured; a registry entry is an old one or names a new cell built for that
  token.
\<close>


definition subs_grow :: "('q, 't, 'v) backend \<Rightarrow> ('q, 't, 'v) backend \<Rightarrow> bool" where
  "subs_grow b b' \<longleftrightarrow>
     tokenOf b' = tokenOf b \<and>
     length (subscriptions b) \<le> length (subscriptions b') \<and>
     (\<forall>h < length (subscriptions b).
        fst (subscriptions b' ! h) = fst (subscriptions b ! h) \<and>
        snd (subscriptions b ! h) \<le> snd (subscriptions b' ! h))"

definition evolves :: "('q, 't, 'v) client \<Rightarrow> ('q, 't, 'v) client \<Rightarrow> bool" where
  "evolves s s' \<longleftrightarrow>
     length (cells s) \<le> length (cells s') \<and>
     (\<forall>i < length (cells s).
        nameArgs (cells s' ! i) = nameArgs (cells s ! i) \<and>
        queryToken (cells s' ! i) = queryToken (cells s ! i) \<and>
        unsubscribe (cells s' ! i) = unsubscribe (cells s ! i)) \<and>
     (\<forall>tok x. signals s' tok = Some x \<longrightarrow>
        signals s tok = Some x \<or>
        (length (cells s) \<le> x \<and> x < length (cells s') \<and> queryToken (cells s' ! x) = tok)) \<and>
     (\<forall>i. length (cells s) \<le> i \<and> i < length (cells s') \<longrightarrow>
        unsubscribe (cells s' ! i) < length (subscriptions (backend s'))) \<and>
     subs_grow (backend s) (backend s')"


text \<open>A timer that was cleared or has fired is never armed again.\<close>

definition spent :: "nat \<Rightarrow> ('q, 't, 'v) client \<Rightarrow> bool" where
  "spent t s \<longleftrightarrow> t < length (timers s) \<and> timers s ! t = None"

text \<open>
  Events that release nothing: every event but an invocation of an unsubscribe capability,
  \<^verbatim>\<open>destroy\<close> and \<^verbatim>\<open>query\<close> (whose listener unsubscribes). \<open>no_query_listeners\<close>
  says that no listener of \<^verbatim>\<open>query\<close> is subscribed to any cell.
\<close>

fun quiet :: "('q, 't, 'v) event \<Rightarrow> bool" where
  "quiet (Unsubscribe c l) = False"
| "quiet (Destroy c) = False"
| "quiet (Query q d) = False"
| "quiet ev = True"

fun is_query :: "nat \<times> listener \<Rightarrow> bool" where
  "is_query (l, QueryListener p t) = True"
| "is_query (l, fn) = False"

definition no_query_listeners :: "('q, 't, 'v) client \<Rightarrow> bool" where
  "no_query_listeners s \<longleftrightarrow> (\<forall>x \<in> set (cells s). \<forall>e \<in> set (sig_listeners x). \<not> is_query e)"

text \<open>
  Every token with a registry entry has one live backend subscription, every other token
  none.
\<close>

definition one_live :: "('q, 't, 'v) client \<Rightarrow> bool" where
  "one_live s \<longleftrightarrow> (\<forall>tok. live (backend s) tok = (case signals s tok of None \<Rightarrow> 0 | Some c \<Rightarrow> 1))"



section \<open>Frame lemmas\<close>


lemma inert_fields [simp]:
  "inert nameArgs" "inert queryToken" "inert unsubscribe" "inert IsLoaded" "inert sig_value"
  by (simp_all add: inert_def)

lemma map_update_same: "g y = g (xs ! k) \<Longrightarrow> map g (xs[k := y]) = map g xs"
  by (cases "k < length xs") (simp_all add: map_update list_update_same_conv list_update_beyond not_less)

lemma resolve_simps [simp]:
  "backend (resolve p v s) = backend s"
  "signals (resolve p v s) = signals s"
  "cells (resolve p v s) = cells s"
  "timers (resolve p v s) = timers s"
  "length (promises (resolve p v s)) = length (promises s)"
  by (simp_all add: resolve_def)

lemma reject_simps [simp]:
  "backend (reject p e s) = backend s"
  "signals (reject p e s) = signals s"
  "cells (reject p e s) = cells s"
  "timers (reject p e s) = timers s"
  "length (promises (reject p e s)) = length (promises s)"
  by (simp_all add: reject_def)

lemma clearTimeout_simps [simp]:
  "backend (clearTimeout t s) = backend s"
  "signals (clearTimeout t s) = signals s"
  "cells (clearTimeout t s) = cells s"
  "promises (clearTimeout t s) = promises s"
  "length (timers (clearTimeout t s)) = length (timers s)"
  by (simp_all add: clearTimeout_def)

lemma update_cell_simps [simp]:
  "backend (update_cell c f s) = backend s"
  "signals (update_cell c f s) = signals s"
  "promises (update_cell c f s) = promises s"
  "timers (update_cell c f s) = timers s"
  "length (cells (update_cell c f s)) = length (cells s)"
  "i \<noteq> c \<Longrightarrow> cells (update_cell c f s) ! i = cells s ! i"
  "c < length (cells s) \<Longrightarrow> cells (update_cell c f s) ! c = f (cells s ! c)"
  by (simp_all add: update_cell_def)

lemma update_cell_map: "(\<And>x. g (f x) = g x) \<Longrightarrow> map g (cells (update_cell c f s)) = map g (cells s)"
  by (simp add: update_cell_def map_update_same)

lemma sig_unsub_simps [simp]:
  "backend (sig_unsub c l s) = backend s"
  "signals (sig_unsub c l s) = signals s"
  "promises (sig_unsub c l s) = promises s"
  "timers (sig_unsub c l s) = timers s"
  "length (cells (sig_unsub c l s)) = length (cells s)"
  "i \<noteq> c \<Longrightarrow> cells (sig_unsub c l s) ! i = cells s ! i"
  by (simp_all add: sig_unsub_def)

lemma sig_unsub_map: "inert g \<Longrightarrow> map g (cells (sig_unsub c l s)) = map g (cells s)"
  by (simp add: sig_unsub_def update_cell_map inert_def)

lemma unsubscribe_cell_simps [simp]:
  "promises (unsubscribe_cell c l s) = promises s"
  "timers (unsubscribe_cell c l s) = timers s"
  "length (cells (unsubscribe_cell c l s)) = length (cells s)"
  "i \<noteq> c \<Longrightarrow> cells (unsubscribe_cell c l s) ! i = cells s ! i"
  "tokenOf (backend (unsubscribe_cell c l s)) = tokenOf (backend s)"
  "localQueryResult (backend (unsubscribe_cell c l s)) = localQueryResult (backend s)"
  by (simp_all add: unsubscribe_cell_def Let_def backend_unsubscribe_def)

lemma unsubscribe_cell_map: "inert g \<Longrightarrow> map g (cells (unsubscribe_cell c l s)) = map g (cells s)"
  by (simp add: unsubscribe_cell_def Let_def update_cell_map sig_unsub_map inert_def)

lemma unsubscribe_cell_signals:
  "signals (unsubscribe_cell c l s) tok = Some x \<Longrightarrow> signals s tok = Some x"
  by (simp add: unsubscribe_cell_def Let_def split: if_splits)

lemma run_listener_simps [simp]:
  "length (cells (snd (run_listener c u fn v s))) = length (cells s)"
  "i \<noteq> c \<Longrightarrow> cells (snd (run_listener c u fn v s)) ! i = cells s ! i"
  "length (promises (snd (run_listener c u fn v s))) = length (promises s)"
  "length (timers (snd (run_listener c u fn v s))) = length (timers s)"
  "tokenOf (backend (snd (run_listener c u fn v s))) = tokenOf (backend s)"
  "localQueryResult (backend (snd (run_listener c u fn v s))) = localQueryResult (backend s)"
  by (cases fn; simp split: option.splits)+

lemma run_listener_map: "inert g \<Longrightarrow> map g (cells (snd (run_listener c u fn v s))) = map g (cells s)"
  by (cases fn) (simp_all add: sig_unsub_map unsubscribe_cell_map split: option.splits)

lemma run_listener_signals:
  "signals (snd (run_listener c u fn v s)) tok = Some x \<Longrightarrow> signals s tok = Some x"
  by (cases fn) (auto split: option.splits if_splits dest: unsubscribe_cell_signals)

lemma notify_simps [simp]:
  "length (cells (notify c v es s)) = length (cells s)"
  "i \<noteq> c \<Longrightarrow> cells (notify c v es s) ! i = cells s ! i"
  "length (promises (notify c v es s)) = length (promises s)"
  "length (timers (notify c v es s)) = length (timers s)"
  "tokenOf (backend (notify c v es s)) = tokenOf (backend s)"
  "localQueryResult (backend (notify c v es s)) = localQueryResult (backend s)"
  by (induction es arbitrary: s; simp)+

lemma notify_map: "inert g \<Longrightarrow> map g (cells (notify c v es s)) = map g (cells s)"
  by (induction es arbitrary: s) (simp_all add: run_listener_map)

lemma notify_signals:
  "signals (notify c v es s) tok = Some x \<Longrightarrow> signals s tok = Some x"
  by (induction es arbitrary: s) (auto dest: run_listener_signals)

lemma sig_set_simps [simp]:
  "length (cells (sig_set c v s)) = length (cells s)"
  "i \<noteq> c \<Longrightarrow> cells (sig_set c v s) ! i = cells s ! i"
  "length (promises (sig_set c v s)) = length (promises s)"
  "length (timers (sig_set c v s)) = length (timers s)"
  "tokenOf (backend (sig_set c v s)) = tokenOf (backend s)"
  "localQueryResult (backend (sig_set c v s)) = localQueryResult (backend s)"
  by (simp_all add: sig_set_def)

lemma inert_value_fields [simp]:
  "inert_value nameArgs" "inert_value queryToken" "inert_value unsubscribe" "inert_value IsLoaded"
  by (simp_all add: inert_value_def)

lemma sig_set_map: "inert_value g \<Longrightarrow> map g (cells (sig_set c v s)) = map g (cells s)"
  by (simp add: sig_set_def notify_map update_cell_map inert_value_def)

lemma sig_set_signals:
  "signals (sig_set c v s) tok = Some x \<Longrightarrow> signals s tok = Some x"
  by (auto simp: sig_set_def split: if_splits dest: notify_signals)

lemma refresh_simps [simp]:
  "length (cells (refresh c s)) = length (cells s)"
  "i \<noteq> c \<Longrightarrow> cells (refresh c s) ! i = cells s ! i"
  "length (promises (refresh c s)) = length (promises s)"
  "length (timers (refresh c s)) = length (timers s)"
  "tokenOf (backend (refresh c s)) = tokenOf (backend s)"
  "localQueryResult (backend (refresh c s)) = localQueryResult (backend s)"
  by (simp_all add: refresh_def)

lemma refresh_map: "inert_value g \<Longrightarrow> map g (cells (refresh c s)) = map g (cells s)"
  by (simp add: refresh_def sig_set_map)

lemma refresh_signals:
  "signals (refresh c s) tok = Some x \<Longrightarrow> signals s tok = Some x"
  by (auto simp: refresh_def dest: sig_set_signals)

lemma sig_subscribe_snd:
  "snd (sig_subscribe c fn s) =
     (case fst (run_listener c None fn (sig_value (cells s ! c)) s) of
        Some err \<Rightarrow> snd (run_listener c None fn (sig_value (cells s ! c)) s)
      | None \<Rightarrow> update_cell c
          (\<lambda>x. x\<lparr>sig_listeners := sig_listeners x @ [(sig_next (cells s ! c), fn)],
                 sig_next := Suc (sig_next (cells s ! c))\<rparr>)
          (snd (run_listener c None fn (sig_value (cells s ! c)) s)))"
  by (simp add: sig_subscribe_def Let_def split: prod.splits option.splits)

lemma sig_subscribe_simps [simp]:
  "length (cells (snd (sig_subscribe c fn s))) = length (cells s)"
  "i \<noteq> c \<Longrightarrow> cells (snd (sig_subscribe c fn s)) ! i = cells s ! i"
  "length (promises (snd (sig_subscribe c fn s))) = length (promises s)"
  "length (timers (snd (sig_subscribe c fn s))) = length (timers s)"
  "tokenOf (backend (snd (sig_subscribe c fn s))) = tokenOf (backend s)"
  "localQueryResult (backend (snd (sig_subscribe c fn s))) = localQueryResult (backend s)"
  by (simp_all add: sig_subscribe_snd split: option.splits)

lemma sig_subscribe_map:
  "inert g \<Longrightarrow> map g (cells (snd (sig_subscribe c fn s))) = map g (cells s)"
  by (simp add: sig_subscribe_snd update_cell_map run_listener_map inert_def split: option.splits)

lemma sig_subscribe_signals:
  "signals (snd (sig_subscribe c fn s)) tok = Some x \<Longrightarrow> signals s tok = Some x"
  by (auto simp: sig_subscribe_snd split: option.splits dest: run_listener_signals)

lemma subscribe_simps [simp]:
  "length (cells (snd (subscribe c fn s))) = length (cells s)"
  "i \<noteq> c \<Longrightarrow> cells (snd (subscribe c fn s)) ! i = cells s ! i"
  "length (promises (snd (subscribe c fn s))) = length (promises s)"
  "length (timers (snd (subscribe c fn s))) = length (timers s)"
  "tokenOf (backend (snd (subscribe c fn s))) = tokenOf (backend s)"
  "localQueryResult (backend (snd (subscribe c fn s))) = localQueryResult (backend s)"
  by (simp_all add: subscribe_def)

lemma subscribe_map:
  "inert g \<Longrightarrow> map g (cells (snd (subscribe c fn s))) = map g (cells s)"
  by (simp add: subscribe_def sig_subscribe_map update_cell_map inert_def)

lemma subscribe_signals:
  "signals (snd (subscribe c fn s)) tok = Some x \<Longrightarrow> signals s tok = Some x"
  by (auto simp: subscribe_def dest: sig_subscribe_signals)

lemma sync_simps [simp]:
  "length (cells (snd (sync c d s))) = length (cells s)"
  "i \<noteq> c \<Longrightarrow> cells (snd (sync c d s)) ! i = cells s ! i"
  "length (promises (snd (sync c d s))) = Suc (length (promises s))"
  "length (timers (snd (sync c d s))) = Suc (length (timers s))"
  "tokenOf (backend (snd (sync c d s))) = tokenOf (backend s)"
  "localQueryResult (backend (snd (sync c d s))) = localQueryResult (backend s)"
  by (simp_all add: sync_def Let_def)

lemma sync_map:
  "inert g \<Longrightarrow> map g (cells (snd (sync c d s))) = map g (cells s)"
  by (simp add: sync_def Let_def sig_subscribe_map)

lemma sync_signals:
  "signals (snd (sync c d s)) tok = Some x \<Longrightarrow> signals s tok = Some x"
  by (auto simp: sync_def Let_def dest: sig_subscribe_signals)

lemma destroy_simps [simp]:
  "cells (destroy c s) = cells s"
  "promises (destroy c s) = promises s"
  "timers (destroy c s) = timers s"
  "tokenOf (backend (destroy c s)) = tokenOf (backend s)"
  "localQueryResult (backend (destroy c s)) = localQueryResult (backend s)"
  by (simp_all add: destroy_def backend_unsubscribe_def)

lemma destroy_signals:
  "signals (destroy c s) tok = Some x \<Longrightarrow> signals s tok = Some x"
  by (simp add: destroy_def split: if_splits)

lemma fire_simps [simp]:
  "length (cells (fire t s)) = length (cells s)"
  "length (promises (fire t s)) = length (promises s)"
  "length (timers (fire t s)) = length (timers s)"
  "backend (fire t s) = backend s"
  "signals (fire t s) = signals s"
  by (simp_all add: fire_def split: option.splits timeout_callback.splits)

lemma fire_map: "inert g \<Longrightarrow> map g (cells (fire t s)) = map g (cells s)"
  by (simp add: fire_def sig_unsub_map split: option.splits timeout_callback.splits)

lemma querySignal_cells:
  "cells (snd (querySignal q s)) =
     (case signals s (tokenOf (backend s) q) of
        Some c \<Rightarrow> cells s
      | None \<Rightarrow> cells s @
          [\<lparr>nameArgs = q, queryToken = tokenOf (backend s) q,
            unsubscribe = length (subscriptions (backend s)), IsLoaded = False,
            sig_value = None, sig_listeners = [], sig_next = 0, counter = 0\<rparr>])"
  by (simp add: querySignal_def backend_subscribe_def split: option.splits)

lemma querySignal_fst:
  "fst (querySignal q s) =
     (case signals s (tokenOf (backend s) q) of Some c \<Rightarrow> c | None \<Rightarrow> length (cells s))"
  by (simp add: querySignal_def backend_subscribe_def split: option.splits)

lemma querySignal_signals:
  "signals (snd (querySignal q s)) =
     (case signals s (tokenOf (backend s) q) of
        Some c \<Rightarrow> signals s
      | None \<Rightarrow> (signals s)(tokenOf (backend s) q \<mapsto> length (cells s)))"
  by (simp add: querySignal_def backend_subscribe_def split: option.splits)

lemma querySignal_simps [simp]:
  "promises (snd (querySignal q s)) = promises s"
  "timers (snd (querySignal q s)) = timers s"
  "tokenOf (backend (snd (querySignal q s))) = tokenOf (backend s)"
  "localQueryResult (backend (snd (querySignal q s))) = localQueryResult (backend s)"
  by (simp_all add: querySignal_def backend_subscribe_def backend_unsubscribe_def split: option.splits)

lemma query_snd:
  "snd (query q d s) =
     (let s1 = snd (querySignal q s);
          r = subscribe (fst (querySignal q s))
                (QueryListener (length (promises s)) (length (timers s)))
                (s1\<lparr>promises := promises s @ [Pending],
                    timers := timers s @
                      [Some (case d of None \<Rightarrow> 10000 | Some d \<Rightarrow> d, QueryTimeout (length (promises s)))]\<rparr>)
      in case fst r of Inl err \<Rightarrow> reject (length (promises s)) err (snd r) | Inr l \<Rightarrow> snd r)"
  by (simp add: query_def Let_def case_prod_beta split: sum.splits)

lemma query_map:
  "inert g \<Longrightarrow> map g (cells (snd (query q d s))) = map g (cells (snd (querySignal q s)))"
  by (simp add: query_snd Let_def subscribe_map split: sum.splits)

lemma onTransition_length [simp]: "length (cells (onTransition toks s)) = length (cells s)"
  by (induction toks arbitrary: s) (simp_all split: option.splits)

lemma onTransition_map:
  "inert_value g \<Longrightarrow> (\<And>x b. g (x\<lparr>IsLoaded := b\<rparr>) = g x) \<Longrightarrow>
     map g (cells (onTransition toks s)) = map g (cells s)"
  by (induction toks arbitrary: s) (simp_all add: refresh_map update_cell_map split: option.splits)

lemma map_nth_eq: "map g xs = map g ys \<Longrightarrow> i < length ys \<Longrightarrow> g (xs ! i) = g (ys ! i)"
  by (metis length_map nth_map)

lemma refresh_IsLoaded: "i < length (cells s) \<Longrightarrow> IsLoaded (cells (refresh c s) ! i) = IsLoaded (cells s ! i)"
  by (rule map_nth_eq) (simp_all add: refresh_map)

lemma onTransition_IsLoaded:
  "i < length (cells s) \<Longrightarrow> IsLoaded (cells s ! i) \<Longrightarrow> IsLoaded (cells (onTransition toks s) ! i)"
proof (induction toks arbitrary: s)
  case Nil
  then show ?case by simp
next
  case (Cons tok toks)
  show ?case
  proof (cases "signals s tok")
    case None
    with Cons show ?thesis by simp
  next
    case (Some c)
    let ?s1 = "update_cell c (\<lambda>x. x\<lparr>IsLoaded := True\<rparr>) s"
    have "IsLoaded (cells ?s1 ! i)"
      using Cons.prems by (cases "i = c") simp_all
    then have "IsLoaded (cells (refresh c ?s1) ! i)"
      using Cons.prems by (simp add: refresh_IsLoaded)
    then show ?thesis
      using Cons.IH [of "refresh c ?s1"] Cons.prems Some by simp
  qed
qed



lemma step_keeps_loaded:
  assumes "c < length (cells s)" "IsLoaded (cells s ! c)"
  shows "c < length (cells (step ev s)) \<and> IsLoaded (cells (step ev s) ! c)"
proof (cases ev)
  case (QuerySignal q)
  with assms show ?thesis
    by (simp add: querySignal_cells nth_append split: option.splits)
next
  case (Subscribe c' n)
  have "IsLoaded (cells (snd (subscribe c' (External n) s)) ! c) = IsLoaded (cells s ! c)"
    using assms by (intro map_nth_eq) (simp_all add: subscribe_map)
  with Subscribe assms show ?thesis by simp
next
  case (Unsubscribe c' l)
  have "IsLoaded (cells (unsubscribe_cell c' l s) ! c) = IsLoaded (cells s ! c)"
    using assms by (intro map_nth_eq) (simp_all add: unsubscribe_cell_map)
  with Unsubscribe assms show ?thesis by simp
next
  case (Refresh c')
  with assms show ?thesis by (simp add: refresh_IsLoaded)
next
  case (Destroy c')
  with assms show ?thesis by simp
next
  case (Sync c' d)
  have "IsLoaded (cells (snd (sync c' d s)) ! c) = IsLoaded (cells s ! c)"
    using assms by (intro map_nth_eq) (simp_all add: sync_map)
  with Sync assms show ?thesis by simp
next
  case (Query q d)
  have "map IsLoaded (cells (snd (query q d s))) = map IsLoaded (cells (snd (querySignal q s)))"
    by (simp add: query_map)
  then have *: "map IsLoaded (cells (snd (query q d s))) =
      map IsLoaded (cells s) @ (case signals s (tokenOf (backend s) q) of Some c \<Rightarrow> [] | None \<Rightarrow> [False])"
    by (simp add: querySignal_cells split: option.splits)
  from * have "length (cells (snd (query q d s))) \<ge> length (cells s)"
    by (metis length_map length_append le_add1)
  moreover from * assms have "map IsLoaded (cells (snd (query q d s))) ! c = IsLoaded (cells s ! c)"
    by (simp add: nth_append)
  ultimately show ?thesis using Query assms by simp
next
  case (Transition toks)
  with assms show ?thesis by (simp add: onTransition_IsLoaded)
next
  case (LocalResults f)
  with assms show ?thesis by simp
next
  case (Fire t)
  have "IsLoaded (cells (fire t s) ! c) = IsLoaded (cells s ! c)"
    using assms by (intro map_nth_eq) (simp_all add: fire_map)
  with Fire assms show ?thesis by simp
qed

lemma run_keeps_loaded:
  "c < length (cells s) \<Longrightarrow> IsLoaded (cells s ! c) \<Longrightarrow>
     c < length (cells (run evs s)) \<and> IsLoaded (cells (run evs s) ! c)"
  by (induction evs arbitrary: s) (simp_all add: step_keeps_loaded)

lemma step_sets_loaded:
  assumes "c < length (cells (step ev s))" "IsLoaded (cells (step ev s) ! c)"
  shows "c < length (cells s) \<and> (IsLoaded (cells s ! c) \<or> (\<exists>toks. ev = Transition toks))"
proof (cases ev)
  case (QuerySignal q)
  with assms show ?thesis
    by (auto simp: querySignal_cells nth_append split: option.splits if_splits)
next
  case (Subscribe c' n)
  have "c < length (cells s) \<Longrightarrow> IsLoaded (cells (snd (subscribe c' (External n) s)) ! c) = IsLoaded (cells s ! c)"
    by (intro map_nth_eq) (simp_all add: subscribe_map)
  with Subscribe assms show ?thesis by (auto split: if_splits)
next
  case (Unsubscribe c' l)
  have "c < length (cells s) \<Longrightarrow> IsLoaded (cells (unsubscribe_cell c' l s) ! c) = IsLoaded (cells s ! c)"
    by (intro map_nth_eq) (simp_all add: unsubscribe_cell_map)
  with Unsubscribe assms show ?thesis by (auto split: if_splits)
next
  case (Refresh c')
  with assms show ?thesis by (auto simp: refresh_IsLoaded split: if_splits)
next
  case (Destroy c')
  with assms show ?thesis by (auto split: if_splits)
next
  case (Sync c' d)
  have "c < length (cells s) \<Longrightarrow> IsLoaded (cells (snd (sync c' d s)) ! c) = IsLoaded (cells s ! c)"
    by (intro map_nth_eq) (simp_all add: sync_map)
  with Sync assms show ?thesis by (auto split: if_splits)
next
  case (Query q d)
  have "map IsLoaded (cells (snd (query q d s))) = map IsLoaded (cells (snd (querySignal q s)))"
    by (simp add: query_map)
  then have *: "map IsLoaded (cells (snd (query q d s))) =
      map IsLoaded (cells s) @ (case signals s (tokenOf (backend s) q) of Some c \<Rightarrow> [] | None \<Rightarrow> [False])"
    by (simp add: querySignal_cells split: option.splits)
  from assms Query have "c < length (map IsLoaded (cells (snd (query q d s))))"
    and "map IsLoaded (cells (snd (query q d s))) ! c" by simp_all
  then show ?thesis unfolding *
    by (auto simp: nth_append split: option.splits if_splits)
next
  case (Transition toks)
  with assms show ?thesis by simp
next
  case (LocalResults f)
  with assms show ?thesis by simp
next
  case (Fire t)
  have "c < length (cells s) \<Longrightarrow> IsLoaded (cells (fire t s) ! c) = IsLoaded (cells s ! c)"
    by (intro map_nth_eq) (simp_all add: fire_map)
  with Fire assms show ?thesis by auto
qed


section \<open>Counting subscribers\<close>









section \<open>Well-formed registries\<close>

lemma subs_grow_refl [simp]: "subs_grow b b"
  by (simp add: subs_grow_def)

lemma subs_grow_trans: "subs_grow b b' \<Longrightarrow> subs_grow b' b'' \<Longrightarrow> subs_grow b b''"
  unfolding subs_grow_def by (metis (no_types, lifting) le_trans less_le_trans)

lemma subs_grow_unsubscribe [simp]: "subs_grow b (backend_unsubscribe h b)"
  by (simp add: subs_grow_def backend_unsubscribe_def nth_list_update)

lemma subs_grow_subscribe [simp]: "subs_grow b (snd (snd (backend_subscribe q b)))"
  by (simp add: subs_grow_def backend_subscribe_def nth_append)

lemma subs_grow_localQueryResult [simp]: "subs_grow b (b\<lparr>localQueryResult := f\<rparr>)"
  by (simp add: subs_grow_def)

lemma unsubscribe_cell_grow:
  "backend s = b \<Longrightarrow> subs_grow b (backend (unsubscribe_cell c l s))"
  by (auto simp: unsubscribe_cell_def Let_def)

lemma run_listener_grow: "subs_grow (backend s) (backend (snd (run_listener c u fn v s)))"
  by (cases fn) (simp_all add: unsubscribe_cell_grow split: option.splits)

lemma notify_grow: "subs_grow (backend s) (backend (notify c v es s))"
proof (induction es arbitrary: s)
  case Nil
  then show ?case by simp
next
  case (Cons e es)
  from run_listener_grow Cons.IH show ?case
    by (simp del: run_listener.simps) (rule subs_grow_trans)
qed

lemma sig_set_grow: "subs_grow (backend s) (backend (sig_set c v s))"
  using notify_grow [of "update_cell c (\<lambda>x. x\<lparr>sig_value := v\<rparr>) s" c v]
  by (simp add: sig_set_def)

lemma refresh_grow: "subs_grow (backend s) (backend (refresh c s))"
  by (simp add: refresh_def sig_set_grow)

lemma sig_subscribe_grow: "subs_grow (backend s) (backend (snd (sig_subscribe c fn s)))"
  by (simp add: sig_subscribe_snd run_listener_grow split: option.splits)

lemma subscribe_grow: "subs_grow (backend s) (backend (snd (subscribe c fn s)))"
  using sig_subscribe_grow [of "update_cell c (\<lambda>x. x\<lparr>counter := counter x + 1\<rparr>) s" c fn]
  by (simp add: subscribe_def)

lemma sync_grow: "subs_grow (backend s) (backend (snd (sync c d s)))"
proof -
  let ?s1 = "s\<lparr>promises := promises s @ [Pending],
               timers := timers s @
                 [Some (d, SyncTimeout (length (promises s)) c (sig_next (cells s ! c)))]\<rparr>"
  from sig_subscribe_grow [of ?s1 c "SyncListener (length (promises s)) (length (timers s))"]
  show ?thesis by (simp add: sync_def Let_def)
qed

lemma destroy_grow: "subs_grow (backend s) (backend (destroy c s))"
  by (simp add: destroy_def)

lemma querySignal_grow: "subs_grow (backend s) (backend (snd (querySignal q s)))"
proof (cases "signals s (tokenOf (backend s) q)")
  case None
  then show ?thesis
    using subs_grow_subscribe [of "backend s" q]
    by (simp add: querySignal_def case_prod_beta backend_subscribe_def)
next
  case (Some c)
  have "subs_grow (backend s)
          (backend_unsubscribe (fst (snd (backend_subscribe q (backend s))))
             (snd (snd (backend_subscribe q (backend s)))))"
    by (rule subs_grow_trans [OF subs_grow_subscribe subs_grow_unsubscribe])
  with Some show ?thesis
    by (simp add: querySignal_def case_prod_beta backend_subscribe_def)
qed

lemma query_grow: "subs_grow (backend s) (backend (snd (query q d s)))"
proof -
  let ?s1 = "snd (querySignal q s)"
  let ?s2 = "?s1\<lparr>promises := promises s @ [Pending],
                 timers := timers s @
                   [Some (case d of None \<Rightarrow> 10000 | Some d \<Rightarrow> d, QueryTimeout (length (promises s)))]\<rparr>"
  let ?r = "subscribe (fst (querySignal q s))
              (QueryListener (length (promises s)) (length (timers s))) ?s2"
  have "subs_grow (backend ?s2) (backend (snd ?r))"
    by (rule subscribe_grow)
  then have "subs_grow (backend s) (backend (snd ?r))"
    using querySignal_grow [of s q] by (auto intro: subs_grow_trans)
  then show ?thesis
    by (simp add: query_snd Let_def split: sum.splits)
qed

lemma onTransition_grow: "subs_grow (backend s) (backend (onTransition toks s))"
proof (induction toks arbitrary: s)
  case Nil
  then show ?case by simp
next
  case (Cons tok toks)
  show ?case
  proof (cases "signals s tok")
    case None
    with Cons.IH show ?thesis by simp
  next
    case (Some c)
    have "subs_grow (backend s) (backend (refresh c (update_cell c (\<lambda>x. x\<lparr>IsLoaded := True\<rparr>) s)))"
      using refresh_grow [of "update_cell c (\<lambda>x. x\<lparr>IsLoaded := True\<rparr>) s" c] by simp
    with Cons.IH Some show ?thesis
      by (auto intro: subs_grow_trans)
  qed
qed

lemma onTransition_signals:
  "signals (onTransition toks s) tok = Some x \<Longrightarrow> signals s tok = Some x"
proof (induction toks arbitrary: s)
  case Nil
  then show ?case by simp
next
  case (Cons t toks)
  show ?case
  proof (cases "signals s t")
    case None
    with Cons show ?thesis by simp
  next
    case (Some c)
    with Cons.prems
    have "signals (refresh c (update_cell c (\<lambda>x. x\<lparr>IsLoaded := True\<rparr>) s)) tok = Some x"
      using Cons.IH by simp
    then show ?thesis by (auto dest: refresh_signals)
  qed
qed

lemma evolves_refl [simp]: "evolves s s"
  by (simp add: evolves_def)

lemma evolves_trans:
  assumes "evolves s s'" "evolves s' s''"
  shows "evolves s s''"
  unfolding evolves_def
proof (intro conjI allI impI)
  show "length (cells s) \<le> length (cells s'')"
    using assms by (auto simp: evolves_def)
  show "subs_grow (backend s) (backend s'')"
    using assms by (auto simp: evolves_def intro: subs_grow_trans)
next
  fix i assume "i < length (cells s)"
  with assms show "nameArgs (cells s'' ! i) = nameArgs (cells s ! i)"
    and "queryToken (cells s'' ! i) = queryToken (cells s ! i)"
    and "unsubscribe (cells s'' ! i) = unsubscribe (cells s ! i)"
    by (auto simp: evolves_def)
next
  fix tok x assume "signals s'' tok = Some x"
  with assms(2) consider "signals s' tok = Some x"
    | "length (cells s') \<le> x" "x < length (cells s'')" "queryToken (cells s'' ! x) = tok"
    by (auto simp: evolves_def)
  then show "signals s tok = Some x \<or>
     (length (cells s) \<le> x \<and> x < length (cells s'') \<and> queryToken (cells s'' ! x) = tok)"
  proof cases
    case 1
    with assms(1) consider "signals s tok = Some x"
      | "length (cells s) \<le> x" "x < length (cells s')" "queryToken (cells s' ! x) = tok"
      by (auto simp: evolves_def)
    then show ?thesis
    proof cases
      case 1
      then show ?thesis by simp
    next
      case 2
      with assms(2) show ?thesis by (auto simp: evolves_def)
    qed
  next
    case 2
    with assms(1) show ?thesis by (auto simp: evolves_def)
  qed
next
  fix i assume i: "length (cells s) \<le> i \<and> i < length (cells s'')"
  show "unsubscribe (cells s'' ! i) < length (subscriptions (backend s''))"
  proof (cases "i < length (cells s')")
    case True
    with i assms(1) have "unsubscribe (cells s' ! i) < length (subscriptions (backend s'))"
      by (auto simp: evolves_def)
    with True assms(2) show ?thesis
      by (auto simp: evolves_def subs_grow_def)
  next
    case False
    with i assms(2) show ?thesis by (auto simp: evolves_def)
  qed
qed

lemma evolves_stable:
  assumes "map nameArgs (cells s') = map nameArgs (cells s)"
    "map queryToken (cells s') = map queryToken (cells s)"
    "map unsubscribe (cells s') = map unsubscribe (cells s)"
    "\<And>tok x. signals s' tok = Some x \<Longrightarrow> signals s tok = Some x"
    "subs_grow (backend s) (backend s')"
  shows "evolves s s'"
proof -
  have len: "length (cells s') = length (cells s)"
    using assms(1) by (rule map_eq_imp_length_eq)
  show ?thesis
    unfolding evolves_def
    using len assms(4,5) map_nth_eq [OF assms(1)] map_nth_eq [OF assms(2)] map_nth_eq [OF assms(3)]
    by auto
qed


lemma querySignal_evolves: "evolves s (snd (querySignal q s))"
  unfolding evolves_def
  using querySignal_grow [of s q]
  by (auto simp: querySignal_cells querySignal_signals nth_append split: option.splits if_splits)
     (simp_all add: querySignal_def backend_subscribe_def)

lemma step_evolves: "evolves s (step ev s)"
proof (cases ev)
  case (QuerySignal q)
  then show ?thesis by (simp add: querySignal_evolves)
next
  case (Subscribe c n)
  then show ?thesis
    by (auto intro!: evolves_stable simp: subscribe_map subscribe_grow dest: subscribe_signals)
next
  case (Unsubscribe c l)
  then show ?thesis
    by (auto intro!: evolves_stable simp: unsubscribe_cell_map unsubscribe_cell_grow
             dest: unsubscribe_cell_signals)
next
  case (Refresh c)
  then show ?thesis
    by (auto intro!: evolves_stable simp: refresh_map refresh_grow dest: refresh_signals)
next
  case (Destroy c)
  then show ?thesis
    by (auto intro!: evolves_stable simp: destroy_grow dest: destroy_signals)
next
  case (Sync c d)
  then show ?thesis
    by (auto intro!: evolves_stable simp: sync_map sync_grow dest: sync_signals)
next
  case (Query q d)
  let ?s1 = "snd (querySignal q s)"
  let ?s2 = "?s1\<lparr>promises := promises s @ [Pending],
                 timers := timers s @
                   [Some (case d of None \<Rightarrow> 10000 | Some d \<Rightarrow> d, QueryTimeout (length (promises s)))]\<rparr>"
  let ?r = "subscribe (fst (querySignal q s))
              (QueryListener (length (promises s)) (length (timers s))) ?s2"
  have "evolves ?s2 (snd ?r)"
  proof (rule evolves_stable)
    show "subs_grow (backend ?s2) (backend (snd ?r))"
      by (rule subscribe_grow)
  qed (auto simp: subscribe_map dest: subscribe_signals)
  moreover have "evolves s ?s2"
    using querySignal_evolves [of s q] by (simp add: evolves_def)
  ultimately have "evolves s (snd ?r)"
    by (rule evolves_trans [rotated])
  moreover have "evolves (snd ?r) (snd (query q d s))"
    by (simp add: query_snd Let_def evolves_def split: sum.splits)
  ultimately show ?thesis
    using Query by (auto intro: evolves_trans)
next
  case (Transition toks)
  then show ?thesis
    by (auto intro!: evolves_stable simp: onTransition_map onTransition_grow
             dest: onTransition_signals)
next
  case (LocalResults f)
  then show ?thesis by (simp add: evolves_def)
next
  case (Fire t)
  then show ?thesis
    by (auto intro!: evolves_stable simp: fire_map)
qed

lemma run_evolves: "evolves s (run evs s)"
proof (induction evs arbitrary: s)
  case Nil
  then show ?case by simp
next
  case (Cons ev evs)
  from step_evolves [of s ev] Cons.IH [of "step ev s"] show ?case
    by (simp del: step.simps) (rule evolves_trans)
qed

lemma evolves_wf: "wf s \<Longrightarrow> evolves s s' \<Longrightarrow> wf s'"
  unfolding wf_def evolves_def subs_grow_def
  by (metis (no_types, lifting) less_le_trans not_le_imp_less)

lemma evolves_unregistered:
  "evolves s s' \<Longrightarrow> c < length (cells s) \<Longrightarrow> \<forall>tok. signals s tok \<noteq> Some c \<Longrightarrow>
     signals s' tok \<noteq> Some c"
  unfolding evolves_def by (metis not_le)

lemma onTransition_unregistered:
  "\<forall>tok. signals s tok \<noteq> Some c \<Longrightarrow> cells (onTransition toks s) ! c = cells s ! c"
proof (induction toks arbitrary: s)
  case Nil
  then show ?case by simp
next
  case (Cons t toks)
  show ?case
  proof (cases "signals s t")
    case None
    with Cons show ?thesis by simp
  next
    case (Some c')
    let ?s1 = "refresh c' (update_cell c' (\<lambda>x. x\<lparr>IsLoaded := True\<rparr>) s)"
    from Some Cons.prems have ne: "c \<noteq> c'" by auto
    have "\<forall>tok. signals ?s1 tok \<noteq> Some c"
      using Cons.prems refresh_signals [of c' "update_cell c' (\<lambda>x. x\<lparr>IsLoaded := True\<rparr>) s"]
      by fastforce
    from Cons.IH [OF this] ne Some show ?thesis by simp
  qed
qed

lemma strictly_equal_eq: "strictly_equal b old new \<Longrightarrow> old = new"
  by (cases new) (simp_all add: strictly_equal_def)

lemma refresh_value:
  assumes "c < length (cells s)"
  shows "sig_value (cells (refresh c s) ! c) = localQueryResult (backend s) (nameArgs (cells s ! c))"
proof -
  let ?v = "localQueryResult (backend s) (nameArgs (cells s ! c))"
  let ?s1 = "update_cell c (\<lambda>x. x\<lparr>sig_value := ?v\<rparr>) s"
  have "sig_value (cells (notify c ?v (sig_listeners (cells s ! c)) ?s1) ! c) = sig_value (cells ?s1 ! c)"
    using assms by (intro map_nth_eq) (simp_all add: notify_map)
  with assms show ?thesis
    by (auto simp: refresh_def sig_set_def dest: strictly_equal_eq)
qed

lemma newClient_wf: "wf (newClient tok res idn)"
  by (simp add: wf_def newClient_def)

lemma run_wf: "wf s \<Longrightarrow> wf (run evs s)"
  using run_evolves by (rule evolves_wf [rotated])

section \<open>Notifications\<close>

lemma notify_append: "notify c v (xs @ ys) s = notify c v ys (notify c v xs s)"
  by (induction xs arbitrary: s) simp_all




text \<open>What a run of a listener with value v can do to promise p and timer t.\<close>

lemma run_listener_promise:
  "promises (snd (run_listener c u fn v s)) ! p = promises s ! p \<or>
   (promises s ! p = Pending \<and> promises (snd (run_listener c u fn v s)) ! p = Resolved v)"
  by (cases fn) (auto simp: resolve_def nth_list_update split: option.splits)

lemma notify_promise:
  "promises (notify c v es s) ! p = promises s ! p \<or>
   (promises s ! p = Pending \<and> promises (notify c v es s) ! p = Resolved v)"
proof (induction es arbitrary: s)
  case Nil
  then show ?case by simp
next
  case (Cons e es)
  from Cons.IH [of "snd (run_listener c (Some (fst e)) (snd e) v s)"]
       run_listener_promise [of c "Some (fst e)" "snd e" v s p]
  show ?case by auto
qed

lemma list_update_None: "xs ! t = None \<Longrightarrow> xs[x := None] ! t = None"
  by (cases "x < length xs") (auto simp: nth_list_update list_update_beyond not_less)

lemma run_listener_timer:
  "timers s ! t = None \<Longrightarrow> timers (snd (run_listener c u fn v s)) ! t = None"
  by (cases fn) (auto simp: clearTimeout_def list_update_None split: option.splits)

lemma notify_timer:
  "timers s ! t = None \<Longrightarrow> timers (notify c v es s) ! t = None"
  by (induction es arbitrary: s) (simp_all add: run_listener_timer del: run_listener.simps)

lemma sig_unsub_listeners:
  "c < length (cells s) \<Longrightarrow>
     sig_listeners (cells (sig_unsub c l s) ! c) = filter (\<lambda>e. fst e \<noteq> l) (sig_listeners (cells s ! c))"
  by (simp add: sig_unsub_def)

lemma unsubscribe_cell_listeners:
  "c < length (cells s) \<Longrightarrow>
     sig_listeners (cells (unsubscribe_cell c l s) ! c) =
       filter (\<lambda>e. fst e \<noteq> l) (sig_listeners (cells s ! c))"
  by (simp add: unsubscribe_cell_def sig_unsub_def update_cell_def Let_def)

lemma run_listener_absent:
  "c < length (cells s) \<Longrightarrow> l \<notin> fst ` set (sig_listeners (cells s ! c)) \<Longrightarrow>
     l \<notin> fst ` set (sig_listeners (cells (snd (run_listener c u fn v s)) ! c))"
  by (cases fn) (auto simp: sig_unsub_listeners unsubscribe_cell_listeners split: option.splits)

lemma notify_absent:
  "c < length (cells s) \<Longrightarrow> l \<notin> fst ` set (sig_listeners (cells s ! c)) \<Longrightarrow>
     l \<notin> fst ` set (sig_listeners (cells (notify c v es s) ! c))"
proof (induction es arbitrary: s)
  case Nil
  then show ?case by simp
next
  case (Cons e es)
  from Cons.prems have "c < length (cells (snd (run_listener c (Some (fst e)) (snd e) v s)))"
    by simp
  from Cons.IH [OF this run_listener_absent [OF Cons.prems]] show ?case by simp
qed



lemma notify_loaded:
  "c < length (cells s) \<Longrightarrow> IsLoaded (cells s ! c) \<Longrightarrow> IsLoaded (cells (notify c v es s) ! c)"
  using map_nth_eq [of IsLoaded "cells (notify c v es s)" "cells s" c]
  by (simp add: notify_map)

text \<open>The listener of sync among the listeners that a write notifies.\<close>

lemma notify_sync_listener:
  assumes "c < length (cells s)" "IsLoaded (cells s ! c)"
    "(l, SyncListener p t) \<in> set es"
    "p < length (promises s)" "promises s ! p = Pending" "t < length (timers s)"
  shows "promises (notify c v es s) ! p = Resolved v \<and>
         timers (notify c v es s) ! t = None \<and>
         l \<notin> fst ` set (sig_listeners (cells (notify c v es s) ! c))"
proof -
  from assms(3) obtain xs ys where es: "es = xs @ (l, SyncListener p t) # ys"
    by (meson split_list)
  let ?a = "notify c v xs s"
  let ?b = "snd (run_listener c (Some l) (SyncListener p t) v ?a)"
  have la: "c < length (cells ?a)" "IsLoaded (cells ?a ! c)"
    using assms(1,2) by (simp_all add: notify_loaded)
  have pa: "promises ?a ! p = Pending \<or> promises ?a ! p = Resolved v"
    using notify_promise [of c v xs s p] assms(5) by auto
  have len: "p < length (promises ?a)" "t < length (timers ?a)"
    using assms(4,6) by simp_all
  have pb: "promises ?b ! p = Resolved v"
    using la pa len by (auto simp: resolve_def)
  have tb: "timers ?b ! t = None"
    using la len by (simp add: clearTimeout_def)
  have ab: "l \<notin> fst ` set (sig_listeners (cells ?b ! c))"
    using la by (auto simp: sig_unsub_listeners)
  have lb: "c < length (cells ?b)"
    using la by (simp del: run_listener.simps)
  have fin: "notify c v es s = notify c v ys ?b"
    by (simp add: es notify_append)
  have "promises (notify c v ys ?b) ! p = Resolved v"
    using notify_promise [of c v ys ?b p] pb by auto
  moreover have "timers (notify c v ys ?b) ! t = None"
    using tb by (rule notify_timer)
  moreover have "l \<notin> fst ` set (sig_listeners (cells (notify c v ys ?b) ! c))"
    using lb ab by (rule notify_absent)
  ultimately show ?thesis
    unfolding fin by blast
qed



lemma spent_same: "timers s' = timers s \<Longrightarrow> spent t s \<Longrightarrow> spent t s'"
  by (simp add: spent_def)

lemma run_listener_spent: "spent t s \<Longrightarrow> spent t (snd (run_listener c u fn v s))"
  using run_listener_timer [of s t c u fn v] by (simp add: spent_def del: run_listener.simps)

lemma notify_spent: "spent t s \<Longrightarrow> spent t (notify c v es s)"
  using notify_timer [of s t c v es] by (simp add: spent_def)

lemma sig_set_spent: "spent t s \<Longrightarrow> spent t (sig_set c v s)"
  by (auto simp: sig_set_def intro!: notify_spent) (simp add: spent_def)

lemma refresh_spent: "spent t s \<Longrightarrow> spent t (refresh c s)"
  by (simp add: refresh_def sig_set_spent)

lemma sig_subscribe_spent: "spent t s \<Longrightarrow> spent t (snd (sig_subscribe c fn s))"
  using run_listener_spent [of t s c None fn "sig_value (cells s ! c)"]
  by (auto simp: sig_subscribe_snd spent_def split: option.splits)

lemma subscribe_spent: "spent t s \<Longrightarrow> spent t (snd (subscribe c fn s))"
  using sig_subscribe_spent [of t "update_cell c (\<lambda>x. x\<lparr>counter := counter x + 1\<rparr>) s" c fn]
  by (simp add: subscribe_def spent_def)

lemma sync_spent: "spent t s \<Longrightarrow> spent t (snd (sync c d s))"
proof -
  assume a: "spent t s"
  let ?s1 = "s\<lparr>promises := promises s @ [Pending],
               timers := timers s @
                 [Some (d, SyncTimeout (length (promises s)) c (sig_next (cells s ! c)))]\<rparr>"
  from a have "spent t ?s1"
    by (simp add: spent_def nth_append)
  then have "spent t (snd (sig_subscribe c (SyncListener (length (promises s)) (length (timers s))) ?s1))"
    by (rule sig_subscribe_spent)
  then show ?thesis
    by (simp add: sync_def Let_def)
qed

lemma fire_spent: "spent t s \<Longrightarrow> spent t (fire t' s)"
  by (auto simp: fire_def spent_def clearTimeout_def list_update_None
           split: option.splits timeout_callback.splits)

lemma query_spent: "spent t s \<Longrightarrow> spent t (snd (query q d s))"
proof -
  assume a: "spent t s"
  let ?s2 = "(snd (querySignal q s))\<lparr>promises := promises s @ [Pending],
                 timers := timers s @
                   [Some (case d of None \<Rightarrow> 10000 | Some d \<Rightarrow> d, QueryTimeout (length (promises s)))]\<rparr>"
  let ?r = "subscribe (fst (querySignal q s))
              (QueryListener (length (promises s)) (length (timers s))) ?s2"
  from a have "spent t ?s2"
    by (simp add: spent_def nth_append)
  then have "spent t (snd ?r)"
    by (rule subscribe_spent)
  then show ?thesis
    by (simp add: query_snd Let_def spent_def split: sum.splits)
qed

lemma onTransition_spent: "spent t s \<Longrightarrow> spent t (onTransition toks s)"
proof (induction toks arbitrary: s)
  case Nil
  then show ?case by simp
next
  case (Cons tok toks)
  show ?case
  proof (cases "signals s tok")
    case None
    with Cons show ?thesis by simp
  next
    case (Some c)
    from Cons.prems have "spent t (update_cell c (\<lambda>x. x\<lparr>IsLoaded := True\<rparr>) s)"
      by (simp add: spent_def)
    then have "spent t (refresh c (update_cell c (\<lambda>x. x\<lparr>IsLoaded := True\<rparr>) s))"
      by (rule refresh_spent)
    with Cons.IH Some show ?thesis by simp
  qed
qed

lemma step_spent: "spent t s \<Longrightarrow> spent t (step ev s)"
  by (cases ev)
     (auto simp: subscribe_spent refresh_spent sync_spent query_spent onTransition_spent fire_spent
           intro: spent_same)

lemma run_spent: "spent t s \<Longrightarrow> spent t (run evs s)"
  by (induction evs arbitrary: s) (simp_all add: step_spent del: step.simps)

lemma fire_spent_noop: "spent t s \<Longrightarrow> fire t s = s"
  by (simp add: fire_def spent_def)

lemma sync_unloaded:
  assumes "c < length (cells s)" "\<not> IsLoaded (cells s ! c)"
  shows "fst (sync c d s) = length (promises s)"
    "promises (snd (sync c d s)) ! length (promises s) = Pending"
    "timers (snd (sync c d s)) ! length (timers s) =
       Some (d, SyncTimeout (length (promises s)) c (sig_next (cells s ! c)))"
    "sig_listeners (cells (snd (sync c d s)) ! c) =
       sig_listeners (cells s ! c) @
         [(sig_next (cells s ! c), SyncListener (length (promises s)) (length (timers s)))]"
  using assms by (simp_all add: sync_def Let_def sig_subscribe_def update_cell_def)

lemma fire_sync_timeout:
  assumes "c < length (cells s)" "t < length (timers s)"
    "timers s ! t = Some (d, SyncTimeout p c l)"
    "p < length (promises s)" "promises s ! p = Pending"
  shows "promises (fire t s) ! p = Rejected QueryTimedOut"
    "timers (fire t s) ! t = None"
    "l \<notin> fst ` set (sig_listeners (cells (fire t s) ! c))"
  using assms by (auto simp: fire_def reject_def clearTimeout_def sig_unsub_listeners)

lemma onTransition_single:
  assumes "signals s tok = Some c" "c < length (cells s)"
    "\<not> strictly_equal (backend s) (sig_value (cells s ! c))
         (localQueryResult (backend s) (nameArgs (cells s ! c)))"
  shows "onTransition [tok] s =
     notify c (localQueryResult (backend s) (nameArgs (cells s ! c))) (sig_listeners (cells s ! c))
       (update_cell c (\<lambda>x. x\<lparr>sig_value := localQueryResult (backend s) (nameArgs (cells s ! c))\<rparr>)
          (update_cell c (\<lambda>x. x\<lparr>IsLoaded := True\<rparr>) s))"
  using assms by (simp add: refresh_def sig_set_def)

lemma transition_sync_listener:
  assumes "signals s tok = Some c" "c < length (cells s)"
    "(l, SyncListener p t) \<in> set (sig_listeners (cells s ! c))"
    "p < length (promises s)" "promises s ! p = Pending" "t < length (timers s)"
    "\<not> strictly_equal (backend s) (sig_value (cells s ! c))
         (localQueryResult (backend s) (nameArgs (cells s ! c)))"
  shows "promises (onTransition [tok] s) ! p =
           Resolved (localQueryResult (backend s) (nameArgs (cells s ! c)))"
    "spent t (onTransition [tok] s)"
    "l \<notin> fst ` set (sig_listeners (cells (onTransition [tok] s) ! c))"
proof -
  let ?v = "localQueryResult (backend s) (nameArgs (cells s ! c))"
  let ?s1 = "update_cell c (\<lambda>x. x\<lparr>sig_value := ?v\<rparr>) (update_cell c (\<lambda>x. x\<lparr>IsLoaded := True\<rparr>) s)"
  have eq: "onTransition [tok] s = notify c ?v (sig_listeners (cells s ! c)) ?s1"
    using assms(1,2,7) by (rule onTransition_single)
  have "c < length (cells ?s1)" "IsLoaded (cells ?s1 ! c)"
    "p < length (promises ?s1)" "promises ?s1 ! p = Pending" "t < length (timers ?s1)"
    using assms by simp_all
  from notify_sync_listener [OF this(1,2) assms(3) this(3,4,5), of ?v]
  show "promises (onTransition [tok] s) ! p = Resolved ?v"
    and "spent t (onTransition [tok] s)"
    and "l \<notin> fst ` set (sig_listeners (cells (onTransition [tok] s) ! c))"
    using assms(6) unfolding eq by (simp_all add: spent_def)
qed







lemma transition_same_value:
  assumes "signals s tok = Some c" "c < length (cells s)"
    "strictly_equal (backend s) (sig_value (cells s ! c))
       (localQueryResult (backend s) (nameArgs (cells s ! c)))"
  shows "promises (onTransition [tok] s) = promises s" "timers (onTransition [tok] s) = timers s"
    "IsLoaded (cells (onTransition [tok] s) ! c)"
  using assms by (simp_all add: refresh_def sig_set_def)

section \<open>Runs that release nothing\<close>

lemma nql_cells: "cells s' = cells s \<Longrightarrow> no_query_listeners s' = no_query_listeners s"
  by (simp add: no_query_listeners_def)

lemma nql_update_cell:
  assumes "no_query_listeners s"
    "\<And>x. \<forall>e \<in> set (sig_listeners x). \<not> is_query e \<Longrightarrow> \<forall>e \<in> set (sig_listeners (f x)). \<not> is_query e"
  shows "no_query_listeners (update_cell c f s)"
proof (cases "c < length (cells s)")
  case True
  have "set ((cells s)[c := f (cells s ! c)]) \<subseteq> insert (f (cells s ! c)) (set (cells s))"
    by (rule set_update_subset_insert)
  moreover have "\<forall>e \<in> set (sig_listeners (cells s ! c)). \<not> is_query e"
    using assms(1) True nth_mem [of c "cells s"] by (auto simp: no_query_listeners_def)
  then have "\<forall>e \<in> set (sig_listeners (f (cells s ! c))). \<not> is_query e"
    by (rule assms(2))
  ultimately show ?thesis
    using assms(1) unfolding no_query_listeners_def update_cell_def by auto
next
  case False
  then show ?thesis
    using assms(1) by (simp add: no_query_listeners_def update_cell_def list_update_beyond not_less)
qed

lemma nql_nth: "no_query_listeners s \<Longrightarrow> c < length (cells s) \<Longrightarrow>
    \<forall>e \<in> set (sig_listeners (cells s ! c)). \<not> is_query e"
  using nth_mem [of c "cells s"] by (auto simp: no_query_listeners_def)

lemma nql_simps [simp]:
  "no_query_listeners (resolve p v s) = no_query_listeners s"
  "no_query_listeners (reject p e s) = no_query_listeners s"
  "no_query_listeners (clearTimeout t s) = no_query_listeners s"
  by (simp_all add: no_query_listeners_def)

lemma sig_unsub_nql: "no_query_listeners s \<Longrightarrow> no_query_listeners (sig_unsub c l s)"
  unfolding sig_unsub_def by (rule nql_update_cell) auto

lemma run_listener_quiet:
  assumes "\<not> is_query (l, fn)"
  shows "signals (snd (run_listener c u fn v s)) = signals s"
    "backend (snd (run_listener c u fn v s)) = backend s"
    "no_query_listeners s \<Longrightarrow> no_query_listeners (snd (run_listener c u fn v s))"
proof -
  show "signals (snd (run_listener c u fn v s)) = signals s"
    using assms by (cases fn) (simp_all split: option.splits)
  show "backend (snd (run_listener c u fn v s)) = backend s"
    using assms by (cases fn) (simp_all split: option.splits)
  assume n: "no_query_listeners s"
  show "no_query_listeners (snd (run_listener c u fn v s))"
  proof (cases fn)
    case (External x)
    with n show ?thesis by simp
  next
    case (SyncListener p t)
    have a: "no_query_listeners (resolve p v s)"
      using n by simp
    then have b: "no_query_listeners (sig_unsub c l' (resolve p v s))" for l'
      by (rule sig_unsub_nql)
    with a n SyncListener show ?thesis
      by (simp split: option.splits)
  next
    case (QueryListener p t)
    with assms show ?thesis by simp
  qed
qed

lemma notify_quiet:
  assumes "\<forall>e \<in> set es. \<not> is_query e"
  shows "signals (notify c v es s) = signals s \<and> backend (notify c v es s) = backend s \<and>
         (no_query_listeners s \<longrightarrow> no_query_listeners (notify c v es s))"
  using assms
proof (induction es arbitrary: s)
  case Nil
  then show ?case by simp
next
  case (Cons e es)
  have q: "\<not> is_query (fst e, snd e)"
    using Cons.prems by simp
  from Cons.IH [of "snd (run_listener c (Some (fst e)) (snd e) v s)"] Cons.prems
       run_listener_quiet [OF q, where c = c and u = "Some (fst e)" and v = v and s = s]
  show ?case by simp
qed

lemma sig_set_quiet:
  assumes "no_query_listeners s" "c < length (cells s)"
  shows "signals (sig_set c v s) = signals s" "backend (sig_set c v s) = backend s"
    "no_query_listeners (sig_set c v s)"
proof -
  let ?s1 = "update_cell c (\<lambda>x. x\<lparr>sig_value := v\<rparr>) s"
  have n1: "no_query_listeners ?s1"
    using assms(1) by (rule nql_update_cell) simp
  have es: "\<forall>e \<in> set (sig_listeners (cells s ! c)). \<not> is_query e"
    using assms by (rule nql_nth)
  from notify_quiet [OF es, of c v ?s1] n1 assms(1)
  show "signals (sig_set c v s) = signals s" "backend (sig_set c v s) = backend s"
    "no_query_listeners (sig_set c v s)"
    by (simp_all add: sig_set_def)
qed

lemma refresh_quiet:
  assumes "no_query_listeners s" "c < length (cells s)"
  shows "signals (refresh c s) = signals s" "backend (refresh c s) = backend s"
    "no_query_listeners (refresh c s)"
  using sig_set_quiet [OF assms] by (simp_all add: refresh_def)

lemma onTransition_quiet:
  assumes "wf s" "no_query_listeners s"
  shows "signals (onTransition toks s) = signals s \<and> backend (onTransition toks s) = backend s \<and>
         no_query_listeners (onTransition toks s)"
  using assms
proof (induction toks arbitrary: s)
  case Nil
  then show ?case by simp
next
  case (Cons tok toks)
  show ?case
  proof (cases "signals s tok")
    case None
    with Cons show ?thesis by simp
  next
    case (Some c)
    let ?s1 = "update_cell c (\<lambda>x. x\<lparr>IsLoaded := True\<rparr>) s"
    let ?s2 = "refresh c ?s1"
    have len: "c < length (cells ?s1)"
      using Cons.prems(1) Some by (simp add: wf_def)
    have n1: "no_query_listeners ?s1"
      using Cons.prems(2) by (rule nql_update_cell) simp
    note r = refresh_quiet [OF n1 len]
    have "evolves s (step (Transition [tok]) s)"
      by (rule step_evolves)
    then have w2: "wf ?s2"
      using Cons.prems(1) Some by (auto intro: evolves_wf)
    from Cons.IH [OF w2 r(3)] r Some show ?thesis by simp
  qed
qed

lemma sig_subscribe_quiet:
  assumes "\<not> is_query (l, fn)"
  shows "signals (snd (sig_subscribe c fn s)) = signals s"
    "backend (snd (sig_subscribe c fn s)) = backend s"
    "no_query_listeners s \<Longrightarrow> no_query_listeners (snd (sig_subscribe c fn s))"
proof -
  let ?r = "run_listener c None fn (sig_value (cells s ! c)) s"
  note q = run_listener_quiet [OF assms, where c = c and u = None
             and v = "sig_value (cells s ! c)" and s = s]
  show "signals (snd (sig_subscribe c fn s)) = signals s"
    using q(1) by (simp add: sig_subscribe_snd split: option.splits)
  show "backend (snd (sig_subscribe c fn s)) = backend s"
    using q(2) by (simp add: sig_subscribe_snd split: option.splits)
  show "no_query_listeners (snd (sig_subscribe c fn s))" if "no_query_listeners s"
  proof -
    have n: "no_query_listeners (snd ?r)"
      using that by (rule q(3))
    have "no_query_listeners (update_cell c
            (\<lambda>x. x\<lparr>sig_listeners := sig_listeners x @ [(sig_next (cells s ! c), fn)],
                   sig_next := Suc (sig_next (cells s ! c))\<rparr>) (snd ?r))"
      using n assms by (intro nql_update_cell) (cases fn; auto)+
    with n show ?thesis
      by (simp add: sig_subscribe_snd split: option.splits)
  qed
qed

lemma subscribe_quiet:
  assumes "\<not> is_query (l, fn)"
  shows "signals (snd (subscribe c fn s)) = signals s"
    "backend (snd (subscribe c fn s)) = backend s"
    "no_query_listeners s \<Longrightarrow> no_query_listeners (snd (subscribe c fn s))"
proof -
  let ?s1 = "update_cell c (\<lambda>x. x\<lparr>counter := counter x + 1\<rparr>) s"
  note q = sig_subscribe_quiet [OF assms, where c = c and s = ?s1]
  show "signals (snd (subscribe c fn s)) = signals s"
    using q(1) by (simp add: subscribe_def)
  show "backend (snd (subscribe c fn s)) = backend s"
    using q(2) by (simp add: subscribe_def)
  show "no_query_listeners (snd (subscribe c fn s))" if "no_query_listeners s"
  proof -
    have "no_query_listeners ?s1"
      using that by (rule nql_update_cell) simp
    then show ?thesis
      using q(3) by (simp add: subscribe_def)
  qed
qed

lemma sync_quiet:
  "signals (snd (sync c d s)) = signals s"
  "backend (snd (sync c d s)) = backend s"
  "no_query_listeners s \<Longrightarrow> no_query_listeners (snd (sync c d s))"
proof -
  let ?s1 = "s\<lparr>promises := promises s @ [Pending],
               timers := timers s @
                 [Some (d, SyncTimeout (length (promises s)) c (sig_next (cells s ! c)))]\<rparr>"
  let ?fn = "SyncListener (length (promises s)) (length (timers s))"
  have nq: "\<not> is_query (0, ?fn)" by simp
  note q = sig_subscribe_quiet [OF nq, where c = c and s = ?s1]
  show "signals (snd (sync c d s)) = signals s"
    using q(1) by (simp add: sync_def Let_def)
  show "backend (snd (sync c d s)) = backend s"
    using q(2) by (simp add: sync_def Let_def)
  show "no_query_listeners (snd (sync c d s))" if "no_query_listeners s"
  proof -
    have "no_query_listeners ?s1"
      using that by (simp add: no_query_listeners_def)
    then show ?thesis
      using q(3) by (simp add: sync_def Let_def)
  qed
qed

lemma fire_nql: "no_query_listeners s \<Longrightarrow> no_query_listeners (fire t s)"
  by (auto simp: fire_def split: option.splits timeout_callback.splits intro!: sig_unsub_nql)

lemma querySignal_nql: "no_query_listeners s \<Longrightarrow> no_query_listeners (snd (querySignal q s))"
  by (auto simp: no_query_listeners_def querySignal_cells split: option.splits)

lemma querySignal_keeps: "signals s tok = Some c \<Longrightarrow> signals (snd (querySignal q s)) tok = Some c"
  by (auto simp: querySignal_signals split: option.splits)

lemma live_append: "live (b\<lparr>subscriptions := subscriptions b @ [(t, n)]\<rparr>) tok =
    live b tok + (if t = tok \<and> n = 0 then 1 else 0)"
  by (simp add: live_def)

lemma querySignal_one_live: "one_live s \<Longrightarrow> one_live (snd (querySignal q s))"
  unfolding one_live_def
  by (auto simp: querySignal_def backend_subscribe_def backend_unsubscribe_def live_def
           split: option.splits)

text \<open>A quiet event on a client without listeners of query releases nothing.\<close>

lemma step_quiet:
  assumes "wf s" "no_query_listeners s" "quiet ev"
  shows "no_query_listeners (step ev s)"
    "signals s tok = Some c \<Longrightarrow> signals (step ev s) tok = Some c"
    "one_live s \<Longrightarrow> one_live (step ev s)"
proof -
  have ext: "\<not> is_query (0, External n)" for n by simp
  show "no_query_listeners (step ev s)"
    using assms
    by (cases ev)
       (simp_all add: querySignal_nql subscribe_quiet(3) [OF ext] refresh_quiet sync_quiet
          onTransition_quiet fire_nql, simp add: no_query_listeners_def)
  show "signals (step ev s) tok = Some c" if "signals s tok = Some c"
    using assms that
    by (cases ev)
       (simp_all add: querySignal_keeps subscribe_quiet(1) [OF ext] refresh_quiet sync_quiet
          onTransition_quiet)
  show "one_live (step ev s)" if "one_live s"
    using assms that
    by (cases ev)
       (simp_all add: querySignal_one_live,
        simp_all add: one_live_def subscribe_quiet [OF ext] refresh_quiet sync_quiet
          onTransition_quiet live_def)
qed

lemma step_wf: "wf s \<Longrightarrow> wf (step ev s)"
  using step_evolves by (rule evolves_wf [rotated])

lemma run_quiet:
  assumes "wf s" "no_query_listeners s" "list_all quiet evs"
  shows "no_query_listeners (run evs s) \<and>
         (signals s tok = Some c \<longrightarrow> signals (run evs s) tok = Some c) \<and>
         (one_live s \<longrightarrow> one_live (run evs s))"
  using assms
proof (induction evs arbitrary: s)
  case Nil
  then show ?case by simp
next
  case (Cons ev evs)
  have q: "quiet ev" "list_all quiet evs"
    using Cons.prems(3) by simp_all
  note st = step_quiet [OF Cons.prems(1,2) q(1)]
  from Cons.IH [OF step_wf [OF Cons.prems(1)] st(1) q(2)] st(2) [of tok c] st(3)
  show ?case by (simp del: step.simps)
qed

lemma newClient_quiet: "no_query_listeners (newClient tok res idn)" "one_live (newClient tok res idn)"
  by (simp_all add: no_query_listeners_def one_live_def newClient_def live_def)

section \<open>Releases by the listeners of query\<close>




section \<open>The authenticated cell\<close>

text \<open>No operation on cells, promises or timers writes the \<^verbatim>\<open>authenticated\<close> cell.\<close>

lemma authenticated_basic [simp]:
  "authenticated (update_cell c f s) = authenticated s"
  "authenticated (resolve p v s) = authenticated s"
  "authenticated (reject p e s) = authenticated s"
  "authenticated (clearTimeout t s) = authenticated s"
  "authenticated (sig_unsub c l s) = authenticated s"
  "authenticated (unsubscribe_cell c l s) = authenticated s"
  "authenticated (destroy c s) = authenticated s"
  by (simp_all add: update_cell_def resolve_def reject_def clearTimeout_def sig_unsub_def
        unsubscribe_cell_def destroy_def Let_def)

lemma authenticated_run_listener [simp]:
  "authenticated (snd (run_listener c u fn v s)) = authenticated s"
  by (cases fn) (simp_all split: option.splits)

lemma authenticated_notify [simp]: "authenticated (notify c v es s) = authenticated s"
  by (induction es arbitrary: s) simp_all

lemma authenticated_refresh [simp]:
  "authenticated (sig_set c v s) = authenticated s"
  "authenticated (refresh c s) = authenticated s"
  by (simp_all add: sig_set_def refresh_def)

lemma authenticated_sig_subscribe [simp]:
  "authenticated (snd (sig_subscribe c fn s)) = authenticated s"
proof -
  have "authenticated (snd (run_listener c None fn (sig_value (cells s ! c)) s)) = authenticated s"
    by simp
  then show ?thesis
    by (simp add: sig_subscribe_def Let_def case_prod_beta split: option.splits)
qed

lemma authenticated_subscribe [simp]:
  "authenticated (snd (subscribe c fn s)) = authenticated s"
  "authenticated (snd (sync c d s)) = authenticated s"
  by (simp_all add: subscribe_def sync_def Let_def)

lemma authenticated_onTransition [simp]: "authenticated (onTransition toks s) = authenticated s"
  by (induction toks arbitrary: s) (simp_all split: option.splits)

lemma authenticated_querySignal [simp]: "authenticated (snd (querySignal q s)) = authenticated s"
  by (simp add: querySignal_def Let_def case_prod_beta split: option.splits)

lemma authenticated_query [simp]: "authenticated (snd (query q d s)) = authenticated s"
proof -
  have "authenticated (snd (subscribe c fn s')) = authenticated s'" for c fn and s' :: "('a, 'b, 'c) client"
    by simp
  then show ?thesis
    by (simp add: query_def Let_def case_prod_beta split: sum.splits)
qed

lemma authenticated_fire [simp]: "authenticated (fire t s) = authenticated s"
  by (simp add: fire_def split: option.splits timeout_callback.splits prod.splits)

lemma authenticated_step: "authenticated (step ev s) = authenticated s"
  by (cases ev) simp_all

lemma authenticated_run: "authenticated (run evs s) = authenticated s"
  by (induction evs arbitrary: s) (simp_all add: authenticated_step)

section \<open>The registry over runs that release nothing\<close>





lemma quiet_run_one_live:
  "list_all quiet evs \<Longrightarrow> one_live (run evs (newClient tok res idn))"
  using run_quiet [of "newClient tok res idn" evs] by (simp add: newClient_wf newClient_quiet)

text \<open>
  A call of \<^verbatim>\<open>querySignal\<close> made while the registry holds a cell for the token returns
  that cell; the backend subscription that the call opened has had its unsubscribe called
  once when the call returns; registry, cells and the number of live backend subscriptions
  of every token are as before. Two calls in direct succession return the identical cell.
\<close>

lemma querySignal_registered_returns_cell:
  "(signals s (tokenOf (backend s) q) = Some c \<longrightarrow>
      fst (querySignal q s) = c \<and>
      signals (snd (querySignal q s)) = signals s \<and>
      cells (snd (querySignal q s)) = cells s \<and>
      subscriptions (backend (snd (querySignal q s))) =
        subscriptions (backend s) @ [(tokenOf (backend s) q, 1)] \<and>
      live (backend (snd (querySignal q s))) tok = live (backend s) tok) \<and>
   fst (querySignal q (snd (querySignal q s'))) = fst (querySignal q s') \<and>
   signals (snd (querySignal q s')) (tokenOf (backend s') q) = Some (fst (querySignal q s'))"
  by (auto simp: querySignal_def backend_subscribe_def backend_unsubscribe_def live_def
           split: option.splits)

section \<open>Reads of a computed signal\<close>



section \<open>Evaluation of concrete runs\<close>

lemmas eval_defs = client0_def newClient_def querySignal_def backend_subscribe_def
  backend_unsubscribe_def destroy_def subscribe_def sig_subscribe_def update_cell_def
  unsubscribe_cell_def sig_unsub_def live_def Let_def sync_def query_def fire_def refresh_def
  sig_set_def strictly_equal_def resolve_def reject_def clearTimeout_def

section \<open>Loading\<close>

text \<open>
  C2: \<^verbatim>\<open>isLoaded\<close> is monotonic. A cell that is loaded stays loaded through every run of
  events (refresh, subscribe, unsubscribe, destroy, sync, query, timers, transitions); an
  event after which a cell is loaded either found it loaded or is a call of the transition
  dispatcher on an existing cell; a cell that \<^verbatim>\<open>querySignal\<close> creates is not loaded.
\<close>

theorem isLoaded_monotonic:
  "(c < length (cells s) \<and> IsLoaded (cells s ! c) \<longrightarrow>
      c < length (cells (run evs s)) \<and> IsLoaded (cells (run evs s) ! c)) \<and>
   (c' < length (cells (step ev s')) \<and> IsLoaded (cells (step ev s') ! c') \<longrightarrow>
      c' < length (cells s') \<and> (IsLoaded (cells s' ! c') \<or> (\<exists>toks. ev = Transition toks))) \<and>
   (signals s'' (tokenOf (backend s'') q) = None \<longrightarrow>
      \<not> IsLoaded (cells (snd (querySignal q s'')) ! fst (querySignal q s'')))"
  using run_keeps_loaded [of c s evs] step_sets_loaded [of c' ev s']
  by (simp add: querySignal_cells querySignal_fst)

theorem isLoaded_monotonic_witness:
  "IsLoaded (cells (run [QuerySignal 5, LocalResults Some, Transition [5]] client0) ! 0) \<and>
   IsLoaded (cells (run [Refresh 0, Subscribe 0 7, Unsubscribe 0 0, Destroy 0, Sync 0 1, Fire 0,
                         Transition [5]]
                     (run [QuerySignal 5, LocalResults Some, Transition [5]] client0)) ! 0) \<and>
   IsLoaded (cells (step (Transition [5]) (run [QuerySignal 5] client0)) ! 0) \<and>
   \<not> IsLoaded (cells (run [QuerySignal 5] client0) ! 0) \<and>
   signals client0 (tokenOf (backend client0) 5) = None \<and>
   \<not> IsLoaded (cells (snd (querySignal 5 client0)) ! fst (querySignal 5 client0))"
proof -
  define s where "s = run [QuerySignal 5, LocalResults Some, Transition [5]] client0"
  define s' where "s' = run [QuerySignal 5] client0"
  have h1: "0 < length (cells s) \<and> IsLoaded (cells s ! 0)"
    by (simp add: s_def eval_defs)
  have h2: "0 < length (cells (step (Transition [5]) s')) \<and>
            IsLoaded (cells (step (Transition [5]) s') ! 0)"
    by (simp add: s'_def eval_defs)
  have h3: "signals client0 (tokenOf (backend client0) 5) = None"
    by (simp add: eval_defs)
  have h4: "\<not> IsLoaded (cells s' ! 0)"
    by (simp add: s'_def eval_defs)
  from isLoaded_monotonic
         [of 0 s "[Refresh 0, Subscribe 0 7, Unsubscribe 0 0, Destroy 0, Sync 0 1, Fire 0,
                   Transition [5]]"
             0 "Transition [5]" s' client0 5]
       h1 h2 h3 h4
  show ?thesis
    unfolding s_def s'_def by blast
qed

text \<open>
  C5: \<^verbatim>\<open>sync\<close> on a cell that is loaded returns a promise, and when \<^verbatim>\<open>sync\<close> returns
  that promise is resolved with the cell's current value and its timer is cancelled: no
  transition is needed. The caller receives the promise, never the value itself.
\<close>

theorem sync_loaded_resolves:
  "c < length (cells s) \<Longrightarrow> IsLoaded (cells s ! c) \<Longrightarrow>
   fst (sync c d s) = length (promises s) \<and>
   promises (snd (sync c d s)) ! fst (sync c d s) = Resolved (sig_value (cells s ! c)) \<and>
   timers (snd (sync c d s)) ! length (timers s) = None \<and>
   sig_value (cells (snd (sync c d s)) ! c) = sig_value (cells s ! c)"
  by (simp add: sync_def Let_def sig_subscribe_def resolve_def clearTimeout_def update_cell_def)

theorem sync_loaded_resolves_witness:
  "0 < length (cells (run [QuerySignal 5, LocalResults Some, Transition [5]] client0)) \<and>
   IsLoaded (cells (run [QuerySignal 5, LocalResults Some, Transition [5]] client0) ! 0) \<and>
   promises (snd (sync 0 10000 (run [QuerySignal 5, LocalResults Some, Transition [5]] client0))) !
     fst (sync 0 10000 (run [QuerySignal 5, LocalResults Some, Transition [5]] client0)) =
     Resolved (Some 5)"
proof -
  define s where "s = run [QuerySignal 5, LocalResults Some, Transition [5]] client0"
  have h1: "0 < length (cells s)"
    by (simp add: s_def eval_defs)
  have h2: "IsLoaded (cells s ! 0)"
    by (simp add: s_def eval_defs)
  have v: "sig_value (cells s ! 0) = Some 5"
    by (simp add: s_def eval_defs)
  from sync_loaded_resolves [OF h1 h2, of 10000] v
  have "promises (snd (sync 0 10000 s)) ! fst (sync 0 10000 s) = Resolved (Some 5)"
    by metis
  with h1 h2 show ?thesis
    unfolding s_def by blast
qed

section \<open>Reference counting\<close>

text \<open>
  C3, as stated: invoking one unsubscribe capability twice has the same effect as invoking
  it once. It fails: with two subscribers on the cell of query 5, one invocation of the
  first capability leaves the counter at 1 and the cell registered; a second invocation of
  the same capability brings the counter to 0 and tears the cell down (the registry entry
  is gone, the backend unsubscribe has been called) although the second subscriber's
  listener is still subscribed.
\<close>

theorem unsubscribe_twice_counterexample:
  "signals (run [QuerySignal 5, Subscribe 0 7, Subscribe 0 8, Unsubscribe 0 0] client0) 5 = Some 0 \<and>
   counter (cells (run [QuerySignal 5, Subscribe 0 7, Subscribe 0 8, Unsubscribe 0 0] client0) ! 0) = 1 \<and>
   signals (run [QuerySignal 5, Subscribe 0 7, Subscribe 0 8, Unsubscribe 0 0, Unsubscribe 0 0]
              client0) 5 = None \<and>
   counter (cells (run [QuerySignal 5, Subscribe 0 7, Subscribe 0 8, Unsubscribe 0 0, Unsubscribe 0 0]
                     client0) ! 0) = 0 \<and>
   sig_listeners (cells (run [QuerySignal 5, Subscribe 0 7, Subscribe 0 8, Unsubscribe 0 0,
                              Unsubscribe 0 0] client0) ! 0) = [(1, External 8)] \<and>
   subscriptions (backend (run [QuerySignal 5, Subscribe 0 7, Subscribe 0 8, Unsubscribe 0 0,
                                Unsubscribe 0 0] client0)) = [(5, 1)]"
  by (simp add: eval_defs)

text \<open>
  C3, amended: a second invocation of the same unsubscribe capability raises no error and
  removes no further listener, but it decrements the counter once more; when that brings
  the counter to exactly zero it tears the cell down (backend unsubscribe, registry
  entry deleted), otherwise it changes neither the registry nor the backend.
\<close>

theorem unsubscribe_twice:
  "c < length (cells s) \<Longrightarrow>
   sig_listeners (cells (unsubscribe_cell c l (unsubscribe_cell c l s)) ! c) =
     sig_listeners (cells (unsubscribe_cell c l s) ! c) \<and>
   counter (cells (unsubscribe_cell c l (unsubscribe_cell c l s)) ! c) =
     counter (cells (unsubscribe_cell c l s) ! c) - 1 \<and>
   (counter (cells (unsubscribe_cell c l s) ! c) = 1 \<longrightarrow>
      signals (unsubscribe_cell c l (unsubscribe_cell c l s)) =
        (signals (unsubscribe_cell c l s))(queryToken (cells s ! c) := None) \<and>
      backend (unsubscribe_cell c l (unsubscribe_cell c l s)) =
        backend_unsubscribe (unsubscribe (cells s ! c)) (backend (unsubscribe_cell c l s))) \<and>
   (counter (cells (unsubscribe_cell c l s) ! c) \<noteq> 1 \<longrightarrow>
      signals (unsubscribe_cell c l (unsubscribe_cell c l s)) = signals (unsubscribe_cell c l s) \<and>
      backend (unsubscribe_cell c l (unsubscribe_cell c l s)) = backend (unsubscribe_cell c l s))"
  by (simp add: unsubscribe_cell_def sig_unsub_def update_cell_def Let_def)

theorem unsubscribe_twice_witness:
  "0 < length (cells (run [QuerySignal 5, Subscribe 0 7, Subscribe 0 8] client0)) \<and>
   counter (cells (unsubscribe_cell 0 0 (run [QuerySignal 5, Subscribe 0 7, Subscribe 0 8] client0)) ! 0) = 1 \<and>
   counter (cells (unsubscribe_cell 0 0
              (unsubscribe_cell 0 0 (run [QuerySignal 5, Subscribe 0 7, Subscribe 0 8] client0))) ! 0) = 0 \<and>
   signals (unsubscribe_cell 0 0
              (unsubscribe_cell 0 0 (run [QuerySignal 5, Subscribe 0 7, Subscribe 0 8] client0))) 5 = None"
proof -
  define s where "s = run [QuerySignal 5, Subscribe 0 7, Subscribe 0 8] client0"
  have h: "0 < length (cells s)"
    by (simp add: s_def eval_defs)
  have k: "counter (cells (unsubscribe_cell 0 0 s) ! 0) = 1"
    by (simp add: s_def eval_defs)
  have t: "queryToken (cells s ! 0) = 5"
    by (simp add: s_def eval_defs)
  from unsubscribe_twice [OF h, of 0] k t
  have "counter (cells (unsubscribe_cell 0 0 (unsubscribe_cell 0 0 s)) ! 0) = 0 \<and>
        signals (unsubscribe_cell 0 0 (unsubscribe_cell 0 0 s)) 5 = None"
    by simp
  with h k show ?thesis
    unfolding s_def by blast
qed



section \<open>Destroyed cells\<close>

text \<open>
  C8: after \<^verbatim>\<open>destroy\<close> on a cell of a well-formed client, and after any further run of
  events, the cell is in no registry entry (it is never stored again), a call of the
  transition dispatcher with any tokens leaves the cell exactly as it is (neither
  \<^verbatim>\<open>[IsLoaded]\<close> nor the value nor anything else of it changes), \<^verbatim>\<open>refresh\<close> on a
  retained handle writes the backend's current local result for the cell's name and
  arguments into its value (\<^verbatim>\<open>refresh\<close> has no error result), and the cell's backend
  subscription stays released.
\<close>

theorem destroyed_cell_detached:
  assumes "wf s" "c < length (cells s)"
  shows "(\<forall>tok. signals (run evs (destroy c s)) tok \<noteq> Some c) \<and>
     cells (onTransition toks (run evs (destroy c s))) ! c = cells (run evs (destroy c s)) ! c \<and>
     sig_value (cells (refresh c (run evs (destroy c s))) ! c) =
       localQueryResult (backend (run evs (destroy c s))) (nameArgs (cells s ! c)) \<and>
     0 < snd (subscriptions (backend (run evs (destroy c s))) ! unsubscribe (cells s ! c))"
proof -
  let ?d = "destroy c s"
  let ?s = "run evs ?d"
  have ev: "evolves ?d ?s"
    by (rule run_evolves)
  have len: "c < length (cells ?d)"
    using assms(2) by simp
  have unreg: "\<forall>tok. signals ?d tok \<noteq> Some c"
    using assms by (auto simp: destroy_def wf_def)
  have a: "\<forall>tok. signals ?s tok \<noteq> Some c"
    using evolves_unregistered [OF ev len unreg] by simp
  have b: "cells (onTransition toks ?s) ! c = cells ?s ! c"
    using a by (rule onTransition_unregistered)
  have len': "c < length (cells ?s)"
    using ev len by (simp add: evolves_def)
  have "nameArgs (cells ?s ! c) = nameArgs (cells s ! c)"
    using ev len by (simp add: evolves_def)
  then have c: "sig_value (cells (refresh c ?s) ! c) =
      localQueryResult (backend ?s) (nameArgs (cells s ! c))"
    using refresh_value [OF len'] by simp
  have h: "unsubscribe (cells s ! c) < length (subscriptions (backend s))"
    using assms by (simp add: wf_def)
  then have "0 < snd (subscriptions (backend ?d) ! unsubscribe (cells s ! c))"
    by (simp add: destroy_def backend_unsubscribe_def)
  moreover have "unsubscribe (cells s ! c) < length (subscriptions (backend ?d))"
    using h by (simp add: destroy_def backend_unsubscribe_def)
  moreover have "subs_grow (backend ?d) (backend ?s)"
    using ev by (simp add: evolves_def)
  ultimately have d: "0 < snd (subscriptions (backend ?s) ! unsubscribe (cells s ! c))"
    unfolding subs_grow_def by (meson less_le_trans)
  from a b c d show ?thesis by blast
qed

theorem destroyed_cell_detached_witness:
  "wf (run [QuerySignal 5] client0) \<and>
   0 < length (cells (run [QuerySignal 5] client0)) \<and>
   (\<forall>tok. signals (run [QuerySignal 5, LocalResults Some]
                    (destroy 0 (run [QuerySignal 5] client0))) tok \<noteq> Some 0) \<and>
   cells (onTransition [5] (run [QuerySignal 5, LocalResults Some]
                              (destroy 0 (run [QuerySignal 5] client0)))) ! 0 =
     cells (run [QuerySignal 5, LocalResults Some] (destroy 0 (run [QuerySignal 5] client0))) ! 0 \<and>
   \<not> IsLoaded (cells (onTransition [5] (run [QuerySignal 5, LocalResults Some]
                              (destroy 0 (run [QuerySignal 5] client0)))) ! 0) \<and>
   sig_value (cells (refresh 0 (run [QuerySignal 5, LocalResults Some]
                                  (destroy 0 (run [QuerySignal 5] client0)))) ! 0) = Some 5 \<and>
   0 < snd (subscriptions (backend (run [QuerySignal 5, LocalResults Some]
                                      (destroy 0 (run [QuerySignal 5] client0)))) ! 0)"
proof -
  define s where "s = run [QuerySignal 5] client0"
  define s' where "s' = run [QuerySignal 5, LocalResults Some] (destroy 0 s)"
  have h1: "wf s"
    unfolding s_def client0_def by (intro run_wf newClient_wf)
  have h2: "0 < length (cells s)"
    by (simp add: s_def eval_defs)
  have f: "nameArgs (cells s ! 0) = 5" "unsubscribe (cells s ! 0) = 0"
    by (simp_all add: s_def eval_defs)
  have g: "localQueryResult (backend s') 5 = Some 5" "\<not> IsLoaded (cells s' ! 0)"
    by (simp_all add: s'_def s_def eval_defs)
  from destroyed_cell_detached [OF h1 h2, of "[QuerySignal 5, LocalResults Some]" "[5]"]
  have "(\<forall>tok. signals s' tok \<noteq> Some 0) \<and>
        cells (onTransition [5] s') ! 0 = cells s' ! 0 \<and>
        sig_value (cells (refresh 0 s') ! 0) = localQueryResult (backend s') (nameArgs (cells s ! 0)) \<and>
        0 < snd (subscriptions (backend s') ! unsubscribe (cells s ! 0))"
    unfolding s'_def .
  with f g
  have "(\<forall>tok. signals s' tok \<noteq> Some 0) \<and>
        cells (onTransition [5] s') ! 0 = cells s' ! 0 \<and>
        \<not> IsLoaded (cells (onTransition [5] s') ! 0) \<and>
        sig_value (cells (refresh 0 s') ! 0) = Some 5 \<and>
        0 < snd (subscriptions (backend s') ! 0)"
    by simp
  with h1 h2 show ?thesis
    unfolding s'_def s_def by blast
qed

section \<open>Timeouts\<close>

text \<open>
  C6: when the cell loads before the timer of \<^verbatim>\<open>sync\<close> fires, the promise resolves and
  the timer is cancelled. \<^verbatim>\<open>sync\<close> learns of the load only when the signal notifies its
  listener, and a write of a value that is strictly equal to the held one notifies nobody.
  Here \<^verbatim>\<open>sync\<close> is called on the unloaded cell of query 5 and the transition dispatcher is
  then called for token 5 while the backend's local result is undefined, as the cell's
  value is: \<^verbatim>\<open>[IsLoaded]\<close> becomes true, but the promise is still pending and the timer
  still armed, and when the timer fires the promise is rejected with the timeout error
  although the cell loaded first. A \<^verbatim>\<open>sync\<close> that is called after the same call of the
  dispatcher takes the path for a loaded cell and is resolved at once.
\<close>

theorem sync_rejected_after_load:
  "\<not> IsLoaded (cells (run [QuerySignal 5] client0) ! 0) \<and>
   IsLoaded (cells (run [QuerySignal 5, Sync 0 10000, Transition [5]] client0) ! 0) \<and>
   promises (run [QuerySignal 5, Sync 0 10000, Transition [5]] client0) ! 0 = Pending \<and>
   timers (run [QuerySignal 5, Sync 0 10000, Transition [5]] client0) ! 0 =
     Some (10000, SyncTimeout 0 0 0) \<and>
   promises (run [QuerySignal 5, Sync 0 10000, Transition [5], Fire 0] client0) ! 0 =
     Rejected QueryTimedOut \<and>
   promises (run [QuerySignal 5, Transition [5], Sync 0 10000] client0) ! 0 = Resolved None"
  by (simp add: eval_defs)




section \<open>The registry\<close>

text \<open>
  C1: two calls of \<^verbatim>\<open>querySignal\<close> with the same name and arguments return the identical
  cell, so that there is at most one cell per token and no second backend subscription is
  kept for it. \<^verbatim>\<open>querySignal\<close> does this while the token is registered
  (\<open>querySignal_registered_returns_cell\<close>), and on every run without a release each
  registered token has exactly one live backend subscription (\<open>quiet_run_one_live\<close>). The
  teardown in the capability that \<^verbatim>\<open>subscribe\<close> returns misses it: it deletes the
  registry entry by token, whichever cell the entry names. Here a cell is created for query
  5, subscribed to once, and destroyed; a second call creates cell 1 and registers it; the
  capability of the first cell's subscription is then invoked, which brings the counter of
  cell 0 to zero, calls the unsubscribe of cell 0's backend subscription a second time and
  deletes the registry entry of cell 1. A third call therefore creates cell 2 instead of
  returning cell 1, and the backend subscriptions of cell 1 and of cell 2, both for token
  5, have never been released.
\<close>

theorem querySignal_stale_capability:
  "fst (querySignal 5 (run [QuerySignal 5, Subscribe 0 7, Destroy 0] client0)) = 1 \<and>
   signals (run [QuerySignal 5, Subscribe 0 7, Destroy 0, QuerySignal 5] client0) 5 = Some 1 \<and>
   signals (run [QuerySignal 5, Subscribe 0 7, Destroy 0, QuerySignal 5, Unsubscribe 0 0] client0) 5 =
     None \<and>
   fst (querySignal 5
          (run [QuerySignal 5, Subscribe 0 7, Destroy 0, QuerySignal 5, Unsubscribe 0 0] client0)) = 2 \<and>
   subscriptions (backend
       (run [QuerySignal 5, Subscribe 0 7, Destroy 0, QuerySignal 5, Unsubscribe 0 0,
             QuerySignal 5] client0)) = [(5, 2), (5, 0), (5, 0)]"
  by (simp add: eval_defs)

section \<open>Computed cells\<close>




section \<open>Authentication\<close>

text \<open>
  C9: the \<^verbatim>\<open>authenticated\<close> cell is tri-state. In the variant of client.ts whose
  constructor creates the cell with \<^verbatim>\<open>this.#signal()\<close> and whose \<^verbatim>\<open>setAuth\<close> starts with
  \<^verbatim>\<open>this.#authenticated.value = undefined\<close>, the cell is undefined after construction and
  after \<^verbatim>\<open>setAuth\<close>, and it stays undefined through \<^verbatim>\<open>clearAuth\<close> and every run of
  events on cells, promises and timers. The backend's callback with the outcome \<open>a\<close> sets
  it to \<open>a\<close>, which it keeps through every such run: only \<^verbatim>\<open>setAuth\<close> and that callback
  write the cell.
\<close>

theorem authenticated_tristate:
  "authenticated (newClient_tristate tok res idn) = None \<and>
   authenticated (run evs (newClient_tristate tok res idn)) = None \<and>
   authenticated (setAuth_tristate s) = None \<and>
   authenticated (run evs (setAuth_tristate s)) = None \<and>
   authenticated (clearAuth (setAuth_tristate s)) = None \<and>
   authenticated (onAuthChange a s) = Some a \<and>
   authenticated (run evs (onAuthChange a s)) = Some a \<and>
   authenticated (clearAuth s) = authenticated s \<and>
   authenticated (run evs s) = authenticated s"
  by (simp add: authenticated_run newClient_tristate_def setAuth_tristate_def onAuthChange_def
        clearAuth_def)

text \<open>
  The earlier variant of client.ts declares the cell with \<^verbatim>\<open>signal(false)\<close> and its
  \<^verbatim>\<open>setAuth\<close> does not write it: there the cell has two states, false after construction
  and the last reported outcome after \<^verbatim>\<open>setAuth\<close>.
\<close>

lemma authenticated_two_state:
  "authenticated (newClient tok res idn) = Some False \<and>
   authenticated (setAuth (newClient tok res idn)) = Some False \<and>
   authenticated (setAuth (onAuthChange a s)) = Some a"
  by (simp add: newClient_def setAuth_def onAuthChange_def)

end
